theory Spec2Isabelle
  imports Main "HOL-Library.Multiset"
begin

section \<open>Data model of the dashboard (services/api.ts, pages/Dashboard.tsx)\<close>

text \<open>
  The interfaces \<^verbatim>\<open>Agent\<close>, \<^verbatim>\<open>Task\<close> and \<^verbatim>\<open>HealthStatus\<close> of
  the API module. Field names carry a prefix because record fields are global constants.
  The \<^verbatim>\<open>Record<string, any>\<close> fields (resources, parameters, result) are never read
  by the aggregation cycle and are left out.
\<close>

record agent =
  a_id :: string
  a_name :: string
  a_description :: "string option"
  a_type :: string
  a_capabilities :: "string list"
  a_status :: string
  a_created_at :: string
  a_updated_at :: string

record task =
  t_id :: string
  t_agent_id :: string
  t_task_type :: string
  t_status :: string
  t_error_message :: "string option"
  t_created_at :: string
  t_updated_at :: string
  t_started_at :: "string option"
  t_completed_at :: "string option"

record health_status =
  h_status :: string
  h_timestamp :: string
  h_service :: string
  h_database :: "string option"
  h_error :: "string option"

text \<open>
  A value thrown by a rejected promise: either an instance of \<^verbatim>\<open>Error\<close> with its
  message, or anything else.
\<close>

datatype thrown = ErrorObj string | NonError

text \<open>
  The REST surface as one aggregation cycle sees it: the outcome of
  \<^verbatim>\<open>agentApi.getAgents()\<close>, of \<^verbatim>\<open>taskApi.getAgentTasks(id)\<close> for every
  id, and of \<^verbatim>\<open>healthApi.getHealth()\<close>. \<open>Inl\<close> is a rejected promise.
\<close>

record api_env =
  getAgents :: "thrown + agent list"
  getAgentTasks :: "string \<Rightarrow> thrown + task list"
  getHealth :: "thrown + health_status"

record dashboard_stats =
  totalAgents :: nat
  activeAgents :: nat
  totalTasks :: nat
  completedTasks :: nat
  failedTasks :: nat
  runningTasks :: nat

text \<open>
  The React state of the \<^verbatim>\<open>Dashboard\<close> component, one field per \<^verbatim>\<open>useState\<close>,
  and the lines written by \<^verbatim>\<open>console.warn\<close>.
\<close>

record dashboard =
  stats :: dashboard_stats
  agents :: "agent list"
  recentTasks :: "task list"
  loading :: bool
  error :: "string option"
  healthStatus :: "health_status option"
  warnings :: "string list"

definition initial_dashboard :: dashboard where
  "initial_dashboard =
     \<lparr>stats = \<lparr>totalAgents = 0, activeAgents = 0, totalTasks = 0,
                completedTasks = 0, failedTasks = 0, runningTasks = 0\<rparr>,
      agents = [], recentTasks = [], loading = True, error = None,
      healthStatus = None, warnings = []\<rparr>"

section \<open>The aggregation cycle: \<^verbatim>\<open>loadDashboardData\<close>\<close>

text \<open>
  What the cycle takes from the JavaScript engine it runs on: the result of
  \<^verbatim>\<open>new Date(s).getTime()\<close>, with \<open>None\<close> for the \<^verbatim>\<open>NaN\<close> of an invalid date;
  the longest array the engine accepts as the spread arguments of one call (beyond it the
  call throws \<^verbatim>\<open>RangeError\<close>); and the order in which the engine leaves an array
  sorted with a comparator that is not consistent.
\<close>

record js_host =
  date_ms :: "string \<Rightarrow> int option"
  spread_limit :: nat
  sort_choice :: "task list \<Rightarrow> task list"

text \<open>
  The per-agent loop. The fetch and \<^verbatim>\<open>allTasks.push(...agentTasks)\<close> stand in one
  \<^verbatim>\<open>try\<close>: a rejected fetch, and a fetched array too long to be spread into the
  call of \<^verbatim>\<open>push\<close>, both end in the \<^verbatim>\<open>catch\<close>, which only writes a warning.
\<close>

fun load_tasks :: "js_host \<Rightarrow> api_env \<Rightarrow> agent list \<Rightarrow> task list \<times> string list \<Rightarrow> task list \<times> string list" where
  "load_tasks host env [] acc = acc"
| "load_tasks host env (ag # rest) (allTasks, warns) =
     (case getAgentTasks env (a_id ag) of
        Inr agentTasks \<Rightarrow>
          (if length agentTasks \<le> spread_limit host
           then load_tasks host env rest (allTasks @ agentTasks, warns)
           else load_tasks host env rest
                  (allTasks, warns @ [''Failed to load tasks for agent '' @ a_id ag @ '':'']))
      | Inl err \<Rightarrow>
          load_tasks host env rest
            (allTasks, warns @ [''Failed to load tasks for agent '' @ a_id ag @ '':'']))"

text \<open>
  The comparator \<^verbatim>\<open>new Date(b.created_at).getTime() - new Date(a.created_at).getTime()\<close>.
  A \<^verbatim>\<open>NaN\<close> difference is read as \<open>0\<close> by the sort. Only the sign of the
  difference matters.
\<close>

definition compare_created :: "(string \<Rightarrow> int option) \<Rightarrow> task \<Rightarrow> task \<Rightarrow> int" where
  "compare_created getTime a b =
     (case (getTime (t_created_at b), getTime (t_created_at a)) of
        (Some tb, Some ta) \<Rightarrow> tb - ta
      | _ \<Rightarrow> 0)"

text \<open>
  Stable insertion: the array every stable sort returns for a consistent comparator.
\<close>

fun js_insert :: "('a \<Rightarrow> 'a \<Rightarrow> int) \<Rightarrow> 'a \<Rightarrow> 'a list \<Rightarrow> 'a list" where
  "js_insert cmp x [] = [x]"
| "js_insert cmp x (y # ys) =
     (if cmp x y \<le> 0 then x # y # ys else y # js_insert cmp x ys)"

fun js_sort :: "('a \<Rightarrow> 'a \<Rightarrow> int) \<Rightarrow> 'a list \<Rightarrow> 'a list" where
  "js_sort cmp [] = []"
| "js_sort cmp (x # xs) = js_insert cmp x (js_sort cmp xs)"

text \<open>
  \<^verbatim>\<open>allTasks.sort(comparator)\<close>. \<^verbatim>\<open>Array.prototype.sort\<close> is stable, and for a
  consistent comparator its result is determined. The comparator above is consistent
  for the array exactly when every \<^verbatim>\<open>created_at\<close> in it parses: it is then a
  difference of numbers, and otherwise it returns \<^verbatim>\<open>NaN\<close> already on comparing the
  unparsable task with itself. For a comparator that is not consistent the order is
  the engine's choice, but the result is still a rearrangement of the array: a choice
  that is not one cannot be the engine's answer, and is not used.
\<close>

definition array_sort :: "js_host \<Rightarrow> task list \<Rightarrow> task list" where
  "array_sort host allTasks =
     (if list_all (\<lambda>t. date_ms host (t_created_at t) \<noteq> None) allTasks
      then js_sort (compare_created (date_ms host)) allTasks
      else if mset (sort_choice host allTasks) = mset allTasks
      then sort_choice host allTasks
      else allTasks)"

definition error_text :: "thrown \<Rightarrow> string" where
  "error_text err =
     (case err of ErrorObj message \<Rightarrow> message | NonError \<Rightarrow> ''Failed to load dashboard data'')"

definition compute_stats :: "agent list \<Rightarrow> task list \<Rightarrow> dashboard_stats" where
  "compute_stats agentsData allTasks =
     \<lparr>totalAgents = length agentsData,
      activeAgents = length (filter (\<lambda>ag. a_status ag \<in> set [''running'', ''idle'']) agentsData),
      totalTasks = length allTasks,
      completedTasks = length (filter (\<lambda>t. t_status t = ''completed'') allTasks),
      failedTasks = length (filter (\<lambda>t. t_status t = ''failed'') allTasks),
      runningTasks = length (filter (\<lambda>t. t_status t = ''running'') allTasks)\<rparr>"

text \<open>
  One run of \<^verbatim>\<open>loadDashboardData\<close>, as a function from the component state before the
  run to the state after it. \<^verbatim>\<open>sort\<close> sorts \<^verbatim>\<open>allTasks\<close> in place, so the counters
  are taken from the sorted array. The outer \<^verbatim>\<open>catch\<close> is the \<open>Inl\<close> branch; the
  \<^verbatim>\<open>finally\<close> clause ends both branches.
\<close>

definition loadDashboardData :: "js_host \<Rightarrow> api_env \<Rightarrow> dashboard \<Rightarrow> dashboard" where
  "loadDashboardData host env s0 =
     (let s1 = s0\<lparr>loading := True, error := None\<rparr> in
      case getAgents env of
        Inl err \<Rightarrow> s1\<lparr>error := Some (error_text err), loading := False\<rparr>
      | Inr agentsData \<Rightarrow>
          (let s2 = s1\<lparr>agents := agentsData\<rparr>;
               (fetched, warns) = load_tasks host env agentsData ([], warnings s2);
               s3 = s2\<lparr>warnings := warns\<rparr>;
               sortedTasks = array_sort host fetched;
               s4 = s3\<lparr>recentTasks := take 10 sortedTasks\<rparr>;
               s5 = s4\<lparr>stats := compute_stats agentsData sortedTasks\<rparr>;
               s6 = (case getHealth env of
                       Inr health \<Rightarrow> s5\<lparr>healthStatus := Some health\<rparr>
                     | Inl err \<Rightarrow> s5\<lparr>warnings := warnings s5 @ [''Failed to load health status:'']\<rparr>)
           in s6\<lparr>loading := False\<rparr>))"

section \<open>The push client: \<^verbatim>\<open>WebSocketService\<close> (services/api.ts)\<close>

text \<open>
  The browser's side of a socket is its \<^verbatim>\<open>readyState\<close>. The text of an incoming
  frame is classified by what the handler's first two lines do with it:
  \<^verbatim>\<open>JSON.parse\<close> throws (\<open>Unparsable\<close>); it returns \<^verbatim>\<open>null\<close>, so that
  reading \<^verbatim>\<open>data.type\<close> throws (\<open>JsonNull\<close>); it returns a value whose
  \<^verbatim>\<open>type\<close> is not a string (\<open>Untyped\<close>, no key of the map matches); or it returns
  an object with a string \<^verbatim>\<open>type\<close> (\<open>Typed\<close>, with the event type and the data).
\<close>

datatype ready_state = CONNECTING | OPEN | CLOSING | CLOSED

datatype frame = Unparsable | JsonNull | Untyped string | Typed string string

text \<open>
  Listeners are JavaScript functions compared by identity, so a listener is a number and
  its code is looked up in a table \<open>bodies\<close>. A body is a sequence of the effects a
  listener can have on the service's registry, or a \<^verbatim>\<open>throw\<close>.
\<close>

datatype action = Subscribe string nat | Unsubscribe string nat | Throw

text \<open>
  The two private fields of the class, \<^verbatim>\<open>ws\<close> (the index of the current socket, or
  \<^verbatim>\<open>null\<close>) and \<^verbatim>\<open>listeners\<close>, together with what the service does to its
  surroundings: every socket it has constructed, the pending \<^verbatim>\<open>setTimeout\<close> delays
  (each calls \<^verbatim>\<open>this.connect()\<close> when it fires), the console, and the listener calls made
  so far (listener and data).
\<close>

record ws_service =
  ws :: "nat option"
  listeners :: "string \<rightharpoonup> nat list"
  sockets :: "ready_state list"
  timers :: "nat list"
  console :: "string list"
  calls :: "(nat \<times> string) list"

definition new_service :: ws_service where
  "new_service =
     \<lparr>ws = None, listeners = Map.empty, sockets = [], timers = [], console = [], calls = []\<rparr>"

text \<open>
  \<^verbatim>\<open>connect()\<close> constructs a socket and stores it; the four handlers it installs close
  over \<^verbatim>\<open>this\<close> only, so they are the same for every socket.
\<close>

definition connect :: "ws_service \<Rightarrow> ws_service" where
  "connect s = s\<lparr>ws := Some (length (sockets s)), sockets := sockets s @ [CONNECTING]\<rparr>"

definition onopen :: "ws_service \<Rightarrow> ws_service" where
  "onopen s = s\<lparr>console := console s @ [''WebSocket connected'']\<rparr>"

definition onclose :: "ws_service \<Rightarrow> ws_service" where
  "onclose s =
     s\<lparr>console := console s @ [''WebSocket disconnected''], timers := timers s @ [5000]\<rparr>"

definition onerror :: "ws_service \<Rightarrow> ws_service" where
  "onerror s = s\<lparr>console := console s @ [''WebSocket error:'']\<rparr>"

text \<open>
  \<^verbatim>\<open>WebSocket.close()\<close> starts the closing handshake of a socket that is connecting or
  open and does nothing otherwise; the close event comes later, from the browser.
\<close>

definition socket_close :: "ready_state \<Rightarrow> ready_state" where
  "socket_close st = (case st of CONNECTING \<Rightarrow> CLOSING | OPEN \<Rightarrow> CLOSING | other \<Rightarrow> other)"

definition disconnect :: "ws_service \<Rightarrow> ws_service" where
  "disconnect s =
     (case ws s of
        None \<Rightarrow> s
      | Some sock \<Rightarrow>
          s\<lparr>sockets := (if sock < length (sockets s)
                          then (sockets s)[sock := socket_close (sockets s ! sock)]
                          else sockets s),
            ws := None\<rparr>)"

definition subscribe :: "string \<Rightarrow> nat \<Rightarrow> ws_service \<Rightarrow> ws_service" where
  "subscribe eventType callback s =
     (let s1 = (if listeners s eventType = None
                then s\<lparr>listeners := (listeners s)(eventType \<mapsto> [])\<rparr> else s)
      in case listeners s1 eventType of
           None \<Rightarrow> s1
         | Some arr \<Rightarrow> s1\<lparr>listeners := (listeners s1)(eventType \<mapsto> arr @ [callback])\<rparr>)"

text \<open>
  \<^verbatim>\<open>indexOf\<close> gives the first index or \<open>-1\<close>; \<^verbatim>\<open>splice(index, 1)\<close> removes that
  element from the array in place.
\<close>

fun indexOf :: "nat list \<Rightarrow> nat \<Rightarrow> int" where
  "indexOf [] callback = - 1"
| "indexOf (x # xs) callback =
     (if x = callback then 0
      else (let i = indexOf xs callback in if i > - 1 then i + 1 else - 1))"

definition splice1 :: "nat list \<Rightarrow> int \<Rightarrow> nat list" where
  "splice1 arr index = take (nat index) arr @ drop (nat index + 1) arr"

definition unsubscribe :: "string \<Rightarrow> nat \<Rightarrow> ws_service \<Rightarrow> ws_service" where
  "unsubscribe eventType callback s =
     (case listeners s eventType of
        None \<Rightarrow> s
      | Some arr \<Rightarrow>
          (let index = indexOf arr callback
           in if index > - 1
              then s\<lparr>listeners := (listeners s)(eventType \<mapsto> splice1 arr index)\<rparr>
              else s))"

text \<open>
  Calling a listener: the call is recorded, then the body runs. \<open>Inl\<close> is an exception
  leaving the listener, with the state reached when it was thrown.
\<close>

fun run_body :: "action list \<Rightarrow> ws_service \<Rightarrow> ws_service + ws_service" where
  "run_body [] s = Inr s"
| "run_body (Subscribe eventType callback # rest) s = run_body rest (subscribe eventType callback s)"
| "run_body (Unsubscribe eventType callback # rest) s = run_body rest (unsubscribe eventType callback s)"
| "run_body (Throw # rest) s = Inl s"

definition call_listener :: "(nat \<Rightarrow> action list) \<Rightarrow> nat \<Rightarrow> string \<Rightarrow> ws_service \<Rightarrow> ws_service + ws_service" where
  "call_listener bodies listener data s = run_body (bodies listener) (s\<lparr>calls := calls s @ [(listener, data)]\<rparr>)"

text \<open>
  \<^verbatim>\<open>listeners.forEach(listener => listener(data))\<close> on the array stored in the map, not
  on a copy. \<^verbatim>\<open>Array.prototype.forEach\<close> reads the length once, then visits the
  indices below it that the array still has when their turn comes. The array of an event
  type is never replaced in the map, so the array being iterated is always the map's
  current entry; \<^verbatim>\<open>|| []\<close> stands in when there is none.
\<close>

definition array_of :: "ws_service \<Rightarrow> string \<Rightarrow> nat list" where
  "array_of s eventType = (case listeners s eventType of Some arr \<Rightarrow> arr | None \<Rightarrow> [])"

function forEach :: "(nat \<Rightarrow> action list) \<Rightarrow> string \<Rightarrow> string \<Rightarrow> nat \<Rightarrow> nat \<Rightarrow> ws_service \<Rightarrow> ws_service + ws_service" where
  "forEach bodies eventType data len k s =
     (if k < len then
        (if k < length (array_of s eventType) then
           (case call_listener bodies (array_of s eventType ! k) data s of
              Inl s' \<Rightarrow> Inl s'
            | Inr s' \<Rightarrow> forEach bodies eventType data len (k + 1) s')
         else forEach bodies eventType data len (k + 1) s)
      else Inr s)"
  by pat_completeness auto
termination
  by (relation "measure (\<lambda>(bodies, eventType, data, len, k, s). len - k)") auto

declare forEach.simps [simp del]

text \<open>
  The \<^verbatim>\<open>onmessage\<close> handler: one \<^verbatim>\<open>try\<close> around parsing and the whole
  \<^verbatim>\<open>forEach\<close>, whose \<^verbatim>\<open>catch\<close> writes to \<^verbatim>\<open>console.error\<close>.
\<close>

definition onmessage :: "(nat \<Rightarrow> action list) \<Rightarrow> frame \<Rightarrow> ws_service \<Rightarrow> ws_service" where
  "onmessage bodies fr s =
     (case fr of
        Unparsable \<Rightarrow> s\<lparr>console := console s @ [''Error parsing WebSocket message:'']\<rparr>
      | JsonNull \<Rightarrow> s\<lparr>console := console s @ [''Error parsing WebSocket message:'']\<rparr>
      | Untyped data \<Rightarrow> s
      | Typed eventType data \<Rightarrow>
          (case forEach bodies eventType data (length (array_of s eventType)) 0 s of
             Inr s' \<Rightarrow> s'
           | Inl s' \<Rightarrow> s'\<lparr>console := console s' @ [''Error parsing WebSocket message:'']\<rparr>))"

text \<open>
  What can happen to a service: a caller invokes a method, the browser delivers an event
  of one of the sockets (an open event only to a connecting socket, a close event only
  once), or the oldest pending timer fires.
\<close>

datatype event =
    Call_connect | Call_disconnect
  | Call_subscribe string nat | Call_unsubscribe string nat
  | Sock_open nat | Sock_message nat frame | Sock_error nat | Sock_close nat
  | Timer_fires

definition step :: "(nat \<Rightarrow> action list) \<Rightarrow> event \<Rightarrow> ws_service \<Rightarrow> ws_service" where
  "step bodies ev s =
     (case ev of
        Call_connect \<Rightarrow> connect s
      | Call_disconnect \<Rightarrow> disconnect s
      | Call_subscribe eventType callback \<Rightarrow> subscribe eventType callback s
      | Call_unsubscribe eventType callback \<Rightarrow> unsubscribe eventType callback s
      | Sock_open sock \<Rightarrow>
          (if sock < length (sockets s) \<and> sockets s ! sock = CONNECTING
           then onopen (s\<lparr>sockets := (sockets s)[sock := OPEN]\<rparr>) else s)
      | Sock_message sock fr \<Rightarrow>
          (if sock < length (sockets s) \<and> sockets s ! sock \<in> set [OPEN, CLOSING]
           then onmessage bodies fr s else s)
      | Sock_error sock \<Rightarrow>
          (if sock < length (sockets s) \<and> sockets s ! sock \<noteq> CLOSED
           then onerror s else s)
      | Sock_close sock \<Rightarrow>
          (if sock < length (sockets s) \<and> sockets s ! sock \<noteq> CLOSED
           then onclose (s\<lparr>sockets := (sockets s)[sock := CLOSED]\<rparr>) else s)
      | Timer_fires \<Rightarrow>
          (case timers s of
             [] \<Rightarrow> s
           | delay # rest \<Rightarrow> connect (s\<lparr>timers := rest\<rparr>)))"

definition run :: "(nat \<Rightarrow> action list) \<Rightarrow> event list \<Rightarrow> ws_service \<Rightarrow> ws_service" where
  "run bodies evs s = fold (step bodies) evs s"

section \<open>Vocabulary for stating the cycle's properties\<close>

text \<open>
  Whether the task fetch of an agent resolved; whether the agent's tasks reach the merged
  array (the fetch resolved and the array could be pushed); the tasks it then
  contributes; and the warning the loop writes otherwise.
\<close>

definition fetch_ok :: "api_env \<Rightarrow> agent \<Rightarrow> bool" where
  "fetch_ok env ag = (case getAgentTasks env (a_id ag) of Inr ts \<Rightarrow> True | Inl err \<Rightarrow> False)"

definition pushable :: "js_host \<Rightarrow> api_env \<Rightarrow> agent \<Rightarrow> bool" where
  "pushable host env ag =
     (case getAgentTasks env (a_id ag) of Inr ts \<Rightarrow> length ts \<le> spread_limit host | Inl err \<Rightarrow> True)"

definition load_ok :: "js_host \<Rightarrow> api_env \<Rightarrow> agent \<Rightarrow> bool" where
  "load_ok host env ag = (fetch_ok env ag \<and> pushable host env ag)"

definition tasks_of :: "api_env \<Rightarrow> agent \<Rightarrow> task list" where
  "tasks_of env ag = (case getAgentTasks env (a_id ag) of Inr ts \<Rightarrow> ts | Inl err \<Rightarrow> [])"

definition task_warning :: "agent \<Rightarrow> string" where
  "task_warning ag = ''Failed to load tasks for agent '' @ a_id ag @ '':''"

definition dates_parse :: "js_host \<Rightarrow> task list \<Rightarrow> bool" where
  "dates_parse host ts = list_all (\<lambda>t. date_ms host (t_created_at t) \<noteq> None) ts"

definition not_older :: "(string \<Rightarrow> int option) \<Rightarrow> task \<Rightarrow> task \<Rightarrow> bool" where
  "not_older getTime a b =
     (case (getTime (t_created_at a), getTime (t_created_at b)) of
        (Some ta, Some tb) \<Rightarrow> tb \<le> ta
      | _ \<Rightarrow> False)"

text \<open>
  The sort key that orders tasks most recent first, for tasks whose date parses.
\<close>

definition neg_time :: "(string \<Rightarrow> int option) \<Rightarrow> task \<Rightarrow> int" where
  "neg_time getTime t = (case getTime (t_created_at t) of Some ms \<Rightarrow> - ms | None \<Rightarrow> 0)"

text \<open>
  The merged array of one cycle before the sort, in fetch order, and after it.
\<close>

definition pushed_tasks :: "js_host \<Rightarrow> api_env \<Rightarrow> agent list \<Rightarrow> task list" where
  "pushed_tasks host env ags = concat (map (tasks_of env) (filter (load_ok host env) ags))"

definition merged_tasks :: "js_host \<Rightarrow> api_env \<Rightarrow> agent list \<Rightarrow> task list" where
  "merged_tasks host env ags = array_sort host (pushed_tasks host env ags)"

section \<open>A concrete deployment used in the examples\<close>

text \<open>
  Two agents, of which the second has a failing task endpoint; two tasks of the first
  agent, the second created an hour after the first, and a third task whose creation
  date is not a date. The engine parses exactly the two dates that occur, accepts 65536
  spread arguments, and leaves an array it cannot order as it is: in the one such array
  used below every element compares as equal to its neighbour, which the run detection
  and the insertion passes of the engines in use leave in place.
\<close>

definition scenario_time :: "string \<Rightarrow> int option" where
  "scenario_time str =
     (if str = ''2024-01-01T10:00:00Z'' then Some 1704103200000
      else if str = ''2024-01-01T11:00:00Z'' then Some 1704106800000
      else None)"

definition scenario_host :: js_host where
  "scenario_host = \<lparr>date_ms = scenario_time, spread_limit = 65536, sort_choice = (\<lambda>arr. arr)\<rparr>"

definition scenario_A1 :: agent where
  "scenario_A1 =
     \<lparr>a_id = ''A1'', a_name = ''first'', a_description = None, a_type = ''autonomous'',
      a_capabilities = [], a_status = ''running'',
      a_created_at = ''2024-01-01T10:00:00Z'', a_updated_at = ''2024-01-01T10:00:00Z''\<rparr>"

definition scenario_A2 :: agent where
  "scenario_A2 =
     \<lparr>a_id = ''A2'', a_name = ''second'', a_description = None, a_type = ''reactive'',
      a_capabilities = [], a_status = ''stopped'',
      a_created_at = ''2024-01-01T10:00:00Z'', a_updated_at = ''2024-01-01T10:00:00Z''\<rparr>"

definition scenario_T1 :: task where
  "scenario_T1 =
     \<lparr>t_id = ''T1'', t_agent_id = ''A1'', t_task_type = ''report'', t_status = ''completed'',
      t_error_message = None, t_created_at = ''2024-01-01T10:00:00Z'',
      t_updated_at = ''2024-01-01T11:00:00Z'', t_started_at = Some ''2024-01-01T10:00:00Z'',
      t_completed_at = Some ''2024-01-01T11:00:00Z''\<rparr>"

definition scenario_T2 :: task where
  "scenario_T2 =
     \<lparr>t_id = ''T2'', t_agent_id = ''A1'', t_task_type = ''report'', t_status = ''running'',
      t_error_message = None, t_created_at = ''2024-01-01T11:00:00Z'',
      t_updated_at = ''2024-01-01T11:00:00Z'', t_started_at = Some ''2024-01-01T11:00:00Z'',
      t_completed_at = None\<rparr>"

definition scenario_health :: health_status where
  "scenario_health =
     \<lparr>h_status = ''healthy'', h_timestamp = ''2024-01-01T11:00:00Z'',
      h_service = ''api-gateway'', h_database = None, h_error = None\<rparr>"

definition scenario_T3 :: task where
  "scenario_T3 =
     \<lparr>t_id = ''T3'', t_agent_id = ''A1'', t_task_type = ''report'', t_status = ''pending'',
      t_error_message = None, t_created_at = ''not-a-date'',
      t_updated_at = ''2024-01-01T11:00:00Z'', t_started_at = None,
      t_completed_at = None\<rparr>"

definition scenario_env :: api_env where
  "scenario_env =
     \<lparr>getAgents = Inr [scenario_A1, scenario_A2],
      getAgentTasks = (\<lambda>agentId. if agentId = ''A1'' then Inr [scenario_T1, scenario_T2]
                                 else Inl (ErrorObj ''Request failed with status code 500'')),
      getHealth = Inr scenario_health\<rparr>"

definition unreachable_env :: api_env where
  "unreachable_env =
     \<lparr>getAgents = Inl (ErrorObj ''Network Error''),
      getAgentTasks = (\<lambda>agentId. Inl (ErrorObj ''Network Error'')),
      getHealth = Inl (ErrorObj ''Network Error'')\<rparr>"

definition stale_env :: api_env where
  "stale_env =
     \<lparr>getAgents = Inr [scenario_A1, scenario_A2],
      getAgentTasks = (\<lambda>agentId. if agentId = ''A1'' then Inr [scenario_T1, scenario_T2]
                                 else Inl (ErrorObj ''Request failed with status code 500'')),
      getHealth = Inl (ErrorObj ''timeout of 10000ms exceeded'')\<rparr>"


definition undated_env :: api_env where
  "undated_env =
     \<lparr>getAgents = Inr [scenario_A1],
      getAgentTasks = (\<lambda>agentId. Inr [scenario_T1, scenario_T3, scenario_T2]),
      getHealth = Inr scenario_health\<rparr>"

section \<open>Vocabulary for stating the dispatch properties\<close>

text \<open>
  An action keeps the array of \<open>topic\<close> if it is not an unsubscribe from \<open>topic\<close>;
  a body is quiet for \<open>topic\<close> if all its actions keep the array and none throws.
  \<open>outcome\<close> is the state a call ends in, thrown or not; \<open>invoked\<close> lists
  the listeners called by the dispatch of one frame, in the order of their calls.
\<close>

fun keeps :: "string \<Rightarrow> action \<Rightarrow> bool" where
  "keeps topic (Subscribe eventType callback) = True"
| "keeps topic (Unsubscribe eventType callback) = (eventType \<noteq> topic)"
| "keeps topic Throw = True"

definition quiet :: "string \<Rightarrow> action list \<Rightarrow> bool" where
  "quiet topic body = (list_all (keeps topic) body \<and> Throw \<notin> set body)"

definition outcome :: "ws_service + ws_service \<Rightarrow> ws_service" where
  "outcome r = (case r of Inl s \<Rightarrow> s | Inr s \<Rightarrow> s)"

definition invoked :: "(nat \<Rightarrow> action list) \<Rightarrow> string \<Rightarrow> string \<Rightarrow> ws_service \<Rightarrow> nat list" where
  "invoked bodies topic data s =
     map fst (drop (length (calls s)) (calls (onmessage bodies (Typed topic data) s)))"

text \<open>
  Listener tables for the examples: listener 1 removes itself; listener 1 removes itself
  and registers listener 3; listener 1 throws; listener 1 registers listener 3 and
  leaves another event type; no listener does anything; listener 1 registers listener 4
  and listener 2 throws. \<open>two_listeners\<close> and \<open>three_listeners\<close> are connected
  services with listeners 1, 2 (and 3) registered, in this order, for
  \<^verbatim>\<open>agent_status\<close>.
\<close>

definition selfish_bodies :: "nat \<Rightarrow> action list" where
  "selfish_bodies listener = (if listener = 1 then [Unsubscribe ''agent_status'' 1] else [])"

definition swapping_bodies :: "nat \<Rightarrow> action list" where
  "swapping_bodies listener =
     (if listener = 1 then [Unsubscribe ''agent_status'' 1, Subscribe ''agent_status'' 3] else [])"

definition failing_bodies :: "nat \<Rightarrow> action list" where
  "failing_bodies listener = (if listener = 1 then [Throw] else [])"

definition growing_bodies :: "nat \<Rightarrow> action list" where
  "growing_bodies listener =
     (if listener = 1 then [Subscribe ''agent_status'' 3, Unsubscribe ''task_update'' 1] else [])"

definition no_bodies :: "nat \<Rightarrow> action list" where
  "no_bodies listener = []"

definition two_listeners :: "(nat \<Rightarrow> action list) \<Rightarrow> ws_service" where
  "two_listeners bodies =
     run bodies [Call_subscribe ''agent_status'' 1, Call_subscribe ''agent_status'' 2,
                 Call_connect, Sock_open 0] new_service"

definition late_failing_bodies :: "nat \<Rightarrow> action list" where
  "late_failing_bodies listener =
     (if listener = 1 then [Subscribe ''agent_status'' 4]
      else if listener = 2 then [Throw] else [])"

definition three_listeners :: "(nat \<Rightarrow> action list) \<Rightarrow> ws_service" where
  "three_listeners bodies =
     run bodies [Call_subscribe ''agent_status'' 1, Call_subscribe ''agent_status'' 2,
                 Call_subscribe ''agent_status'' 3, Call_connect, Sock_open 0] new_service"

section \<open>Properties of the aggregation cycle\<close>

subsection \<open>The per-agent loop and the sort\<close>

lemma load_tasks_acc:
  "load_tasks host env ags (acc, logged) =
     (acc @ concat (map (tasks_of env) (filter (load_ok host env) ags)),
      logged @ map task_warning (filter (\<lambda>ag. \<not> load_ok host env ag) ags))"
  by (induction ags arbitrary: acc logged)
     (auto simp: tasks_of_def fetch_ok_def pushable_def load_ok_def task_warning_def
           split: sum.splits)

lemma mset_js_insert: "mset (js_insert cmp x xs) = add_mset x (mset xs)"
  by (induction xs) auto

lemma mset_js_sort: "mset (js_sort cmp xs) = mset xs"
  by (induction xs) (auto simp: mset_js_insert)

lemma length_js_sort: "length (js_sort cmp xs) = length xs"
  using mset_js_sort [of cmp xs] by (metis size_mset)

lemma set_js_sort: "set (js_sort cmp xs) = set xs"
  using mset_js_sort [of cmp xs] by (metis set_mset_mset)

lemma count_js_sort: "length (filter P (js_sort cmp xs)) = length (filter P xs)"
proof -
  have "mset (filter P (js_sort cmp xs)) = mset (filter P xs)"
    by (simp add: mset_js_sort)
  then show ?thesis by (metis size_mset)
qed

lemma js_insert_sort_key:
  assumes "\<And>y. y \<in> set ys \<Longrightarrow> (cmp x y \<le> 0) = (f x \<le> f y)"
  shows "js_insert cmp x ys = insort_key f x ys"
  using assms by (induction ys) auto

lemma js_sort_sort_key:
  assumes "\<And>x y. x \<in> set xs \<Longrightarrow> y \<in> set xs \<Longrightarrow> (cmp x y \<le> 0) = (f x \<le> f y)"
  shows "js_sort cmp xs = sort_key f xs"
  using assms
proof (induction xs)
  case Nil
  show ?case by simp
next
  case (Cons x xs)
  have rest: "js_sort cmp xs = sort_key f xs"
    using Cons by simp
  have "js_insert cmp x (sort_key f xs) = insort_key f x (sort_key f xs)"
    by (rule js_insert_sort_key) (simp add: Cons.prems)
  with rest show ?case by simp
qed

lemma compare_created_valid:
  assumes "getTime (t_created_at a) \<noteq> None" "getTime (t_created_at b) \<noteq> None"
  shows "(compare_created getTime a b \<le> 0) = (neg_time getTime a \<le> neg_time getTime b)"
  using assms by (auto simp: compare_created_def neg_time_def)

lemma js_sort_created:
  assumes "\<forall>t \<in> set xs. getTime (t_created_at t) \<noteq> None"
  shows "js_sort (compare_created getTime) xs = sort_key (neg_time getTime) xs"
  by (rule js_sort_sort_key) (use assms in \<open>simp add: compare_created_valid\<close>)

lemma not_older_neg_time:
  assumes "getTime (t_created_at a) \<noteq> None" "getTime (t_created_at b) \<noteq> None"
  shows "not_older getTime a b = (neg_time getTime a \<le> neg_time getTime b)"
  using assms by (auto simp: not_older_def neg_time_def)

lemma sorted_js_sort_created:
  assumes "\<forall>t \<in> set xs. getTime (t_created_at t) \<noteq> None"
  shows "sorted_wrt (not_older getTime) (js_sort (compare_created getTime) xs)"
proof -
  let ?ys = "sort_key (neg_time getTime) xs"
  have "sorted (map (neg_time getTime) ?ys)"
    by (rule sorted_sort_key)
  then have "sorted_wrt (\<lambda>a b. neg_time getTime a \<le> neg_time getTime b) ?ys"
    by (simp add: sorted_map)
  moreover have "\<forall>t \<in> set ?ys. getTime (t_created_at t) \<noteq> None"
    using assms by simp
  ultimately have "sorted_wrt (not_older getTime) ?ys"
    by (smt (verit) sorted_wrt_mono_rel not_older_neg_time)
  then show ?thesis
    by (simp add: js_sort_created [OF assms])
qed

lemma stable_js_sort_created:
  assumes "\<forall>t \<in> set xs. getTime (t_created_at t) \<noteq> None"
  shows "filter (\<lambda>t. getTime (t_created_at t) = Some k) (js_sort (compare_created getTime) xs)
       = filter (\<lambda>t. getTime (t_created_at t) = Some k) xs"
proof -
  let ?ys = "sort_key (neg_time getTime) xs"
  have eq: "\<And>zs. \<forall>t \<in> set zs. getTime (t_created_at t) \<noteq> None \<Longrightarrow>
      filter (\<lambda>t. getTime (t_created_at t) = Some k) zs = filter (\<lambda>t. neg_time getTime t = - k) zs"
    by (rule filter_cong) (auto simp: neg_time_def)
  have "filter (\<lambda>t. neg_time getTime t = - k) ?ys = filter (\<lambda>t. neg_time getTime t = - k) xs"
    by (rule sort_key_stable)
  moreover have "\<forall>t \<in> set ?ys. getTime (t_created_at t) \<noteq> None"
    using assms by simp
  ultimately show ?thesis
    using eq [of ?ys] eq [of xs] assms by (simp add: js_sort_created [OF assms])
qed

lemma array_sort_parsed:
  assumes "dates_parse host xs"
  shows "array_sort host xs = js_sort (compare_created (date_ms host)) xs"
  using assms by (simp add: array_sort_def dates_parse_def)

lemma mset_array_sort: "mset (array_sort host xs) = mset xs"
  by (simp add: array_sort_def mset_js_sort)

lemma length_array_sort: "length (array_sort host xs) = length xs"
  using mset_array_sort [of host xs] by (metis size_mset)

lemma count_array_sort: "length (filter P (array_sort host xs)) = length (filter P xs)"
proof -
  have "mset (filter P (array_sort host xs)) = mset (filter P xs)"
    by (simp add: mset_array_sort)
  then show ?thesis by (metis size_mset)
qed

subsection \<open>One cycle, field by field\<close>

lemma load_tasks_pushed:
  "load_tasks host env ags ([], logged) =
     (pushed_tasks host env ags,
      logged @ map task_warning (filter (\<lambda>ag. \<not> load_ok host env ag) ags))"
  by (simp add: load_tasks_acc pushed_tasks_def)

lemma cycle_failed:
  assumes "getAgents env = Inl err"
  shows "loadDashboardData host env s = s\<lparr>loading := False, error := Some (error_text err)\<rparr>"
  using assms by (simp add: loadDashboardData_def)

lemma cycle_ok_error:
  assumes "getAgents env = Inr ags"
  shows "error (loadDashboardData host env s) = None"
  using assms by (simp add: loadDashboardData_def load_tasks_pushed Let_def split: sum.split)

lemma cycle_ok_loading:
  assumes "getAgents env = Inr ags"
  shows "loading (loadDashboardData host env s) = False"
  using assms by (simp add: loadDashboardData_def load_tasks_pushed Let_def split: sum.split)

lemma cycle_ok_agents:
  assumes "getAgents env = Inr ags"
  shows "agents (loadDashboardData host env s) = ags"
  using assms by (simp add: loadDashboardData_def load_tasks_pushed Let_def split: sum.split)

lemma cycle_ok_recentTasks:
  assumes "getAgents env = Inr ags"
  shows "recentTasks (loadDashboardData host env s) = take 10 (merged_tasks host env ags)"
  using assms
  by (simp add: loadDashboardData_def load_tasks_pushed merged_tasks_def Let_def split: sum.split)

lemma cycle_ok_stats:
  assumes "getAgents env = Inr ags"
  shows "stats (loadDashboardData host env s) = compute_stats ags (merged_tasks host env ags)"
  using assms
  by (simp add: loadDashboardData_def load_tasks_pushed merged_tasks_def Let_def split: sum.split)

lemma cycle_ok_healthStatus:
  assumes "getAgents env = Inr ags"
  shows "healthStatus (loadDashboardData host env s) =
           (case getHealth env of Inr health \<Rightarrow> Some health | Inl err \<Rightarrow> healthStatus s)"
  using assms by (simp add: loadDashboardData_def load_tasks_pushed Let_def split: sum.split)

lemma cycle_ok_warnings:
  assumes "getAgents env = Inr ags"
  shows "warnings (loadDashboardData host env s) =
           warnings s @ map task_warning (filter (\<lambda>ag. \<not> load_ok host env ag) ags) @
           (case getHealth env of Inr health \<Rightarrow> [] | Inl err \<Rightarrow> [''Failed to load health status:''])"
  using assms by (simp add: loadDashboardData_def load_tasks_pushed Let_def split: sum.split)

lemma compute_stats_merged:
  "compute_stats ags (merged_tasks host env ags) = compute_stats ags (pushed_tasks host env ags)"
  by (simp add: compute_stats_def merged_tasks_def length_array_sort count_array_sort)

lemma cycle_restart:
  "loadDashboardData host env (s\<lparr>loading := b, error := e\<rparr>) = loadDashboardData host env s"
  by (simp add: loadDashboardData_def Let_def split: sum.split prod.split)

lemma scenario_pushed:
  "pushed_tasks scenario_host scenario_env [scenario_A1, scenario_A2] = [scenario_T1, scenario_T2]"
  by (simp add: pushed_tasks_def tasks_of_def fetch_ok_def pushable_def load_ok_def
      scenario_env_def scenario_A1_def scenario_A2_def scenario_host_def)

lemma scenario_merged:
  "merged_tasks scenario_host scenario_env [scenario_A1, scenario_A2] = [scenario_T2, scenario_T1]"
  by (simp only: merged_tasks_def scenario_pushed)
     (simp add: array_sort_def compare_created_def scenario_T1_def scenario_T2_def
        scenario_time_def scenario_host_def)

lemma scenario_stats:
  "compute_stats [scenario_A1, scenario_A2] [scenario_T2, scenario_T1] =
     \<lparr>totalAgents = 2, activeAgents = 1, totalTasks = 2,
      completedTasks = 1, failedTasks = 0, runningTasks = 1\<rparr>"
  by (simp add: compute_stats_def scenario_A1_def scenario_A2_def scenario_T1_def scenario_T2_def)


lemma undated_pushed:
  "pushed_tasks scenario_host undated_env [scenario_A1] = [scenario_T1, scenario_T3, scenario_T2]"
  by (simp add: pushed_tasks_def tasks_of_def fetch_ok_def pushable_def load_ok_def
      undated_env_def scenario_host_def)

lemma undated_merged:
  "merged_tasks scenario_host undated_env [scenario_A1] = [scenario_T1, scenario_T3, scenario_T2]"
  by (simp only: merged_tasks_def undated_pushed)
     (simp add: array_sort_def scenario_host_def scenario_T3_def scenario_time_def)

subsection \<open>The claims about the aggregation cycle\<close>

text \<open>
  C4: when the mandatory agent-set fetch is rejected, the cycle publishes nothing: the
  counters, the recent tasks, the health value and the agent list are those of the
  previous snapshot, and the failure is surfaced as the component's error message. A later
  cycle runs exactly as if the failed one had not happened, so a later successful cycle
  clears the error and publishes its counters.
\<close>

theorem agent_fetch_failure_keeps_snapshot:
  assumes "getAgents env = Inl err"
  shows "stats (loadDashboardData host env s) = stats s \<and>
         recentTasks (loadDashboardData host env s) = recentTasks s \<and>
         healthStatus (loadDashboardData host env s) = healthStatus s \<and>
         agents (loadDashboardData host env s) = agents s \<and>
         error (loadDashboardData host env s) = Some (error_text err) \<and>
         loading (loadDashboardData host env s) = False \<and>
         loadDashboardData host env' (loadDashboardData host env s) =
           loadDashboardData host env' s \<and>
         (getAgents env' = Inr ags \<longrightarrow>
            error (loadDashboardData host env' (loadDashboardData host env s)) = None \<and>
            stats (loadDashboardData host env' (loadDashboardData host env s)) =
              compute_stats ags (pushed_tasks host env' ags))"
proof -
  have failed: "loadDashboardData host env s = s\<lparr>loading := False, error := Some (error_text err)\<rparr>"
    using assms by (rule cycle_failed)
  have again: "loadDashboardData host env' (loadDashboardData host env s) =
      loadDashboardData host env' s"
    unfolding failed by (rule cycle_restart)
  have recovered: "getAgents env' = Inr ags \<longrightarrow>
      error (loadDashboardData host env' s) = None \<and>
      stats (loadDashboardData host env' s) = compute_stats ags (pushed_tasks host env' ags)"
    by (simp add: cycle_ok_error cycle_ok_stats compute_stats_merged)
  show ?thesis
    using again recovered by (simp add: failed)
qed

theorem agent_fetch_failure_witness:
  "getAgents unreachable_env = Inl (ErrorObj ''Network Error'') \<and>
   getAgents scenario_env = Inr [scenario_A1, scenario_A2] \<and>
   stats (loadDashboardData scenario_host unreachable_env
            (loadDashboardData scenario_host scenario_env initial_dashboard)) =
     \<lparr>totalAgents = 2, activeAgents = 1, totalTasks = 2,
      completedTasks = 1, failedTasks = 0, runningTasks = 1\<rparr> \<and>
   error (loadDashboardData scenario_host unreachable_env
            (loadDashboardData scenario_host scenario_env initial_dashboard)) = Some ''Network Error'' \<and>
   error (loadDashboardData scenario_host scenario_env
            (loadDashboardData scenario_host unreachable_env initial_dashboard)) = None"
proof -
  have down: "getAgents unreachable_env = Inl (ErrorObj ''Network Error'')"
    by (simp add: unreachable_env_def)
  have up: "getAgents scenario_env = Inr [scenario_A1, scenario_A2]"
    by (simp add: scenario_env_def)
  note after = agent_fetch_failure_keeps_snapshot [OF down,
      of scenario_host "loadDashboardData scenario_host scenario_env initial_dashboard"
         scenario_env "[scenario_A1, scenario_A2]"]
  note before = agent_fetch_failure_keeps_snapshot [OF down,
      of scenario_host initial_dashboard scenario_env "[scenario_A1, scenario_A2]"]
  have published: "stats (loadDashboardData scenario_host scenario_env initial_dashboard) =
      \<lparr>totalAgents = 2, activeAgents = 1, totalTasks = 2,
       completedTasks = 1, failedTasks = 0, runningTasks = 1\<rparr>"
    by (simp add: cycle_ok_stats [OF up] scenario_merged scenario_stats)
  have kept: "stats (loadDashboardData scenario_host unreachable_env
      (loadDashboardData scenario_host scenario_env initial_dashboard)) =
      stats (loadDashboardData scenario_host scenario_env initial_dashboard)"
    using after by blast
  have surfaced: "error (loadDashboardData scenario_host unreachable_env
      (loadDashboardData scenario_host scenario_env initial_dashboard)) = Some ''Network Error''"
    using after by (simp add: error_text_def)
  have recovered: "error (loadDashboardData scenario_host scenario_env
      (loadDashboardData scenario_host unreachable_env initial_dashboard)) = None"
    using before up by blast
  show ?thesis
    using up down kept surfaced recovered by (simp only: published simp_thms)
qed




text \<open>
  C6 as stated fails. One agent with the tasks T1 (10:00), T3 (a creation date that
  does not parse) and T2 (11:00): the cycle publishes \<open>recentTasks = [T1, T3, T2]\<close>,
  in which the older T1 stands before the more recent T2.
\<close>

theorem undated_task_counterexample:
  "getAgents undated_env = Inr [scenario_A1] \<and>
   getAgentTasks undated_env (a_id scenario_A1) = Inr [scenario_T1, scenario_T3, scenario_T2] \<and>
   error (loadDashboardData scenario_host undated_env initial_dashboard) = None \<and>
   recentTasks (loadDashboardData scenario_host undated_env initial_dashboard) =
     [scenario_T1, scenario_T3, scenario_T2] \<and>
   date_ms scenario_host (t_created_at scenario_T1) = Some 1704103200000 \<and>
   date_ms scenario_host (t_created_at scenario_T2) = Some 1704106800000 \<and>
   \<not> not_older (date_ms scenario_host) scenario_T1 scenario_T2 \<and>
   \<not> sorted_wrt (not_older (date_ms scenario_host))
       (recentTasks (loadDashboardData scenario_host undated_env initial_dashboard))"
proof -
  have up: "getAgents undated_env = Inr [scenario_A1]"
    by (simp add: undated_env_def)
  have answer: "getAgentTasks undated_env (a_id scenario_A1) =
      Inr [scenario_T1, scenario_T3, scenario_T2]"
    by (simp add: undated_env_def)
  have recent: "recentTasks (loadDashboardData scenario_host undated_env initial_dashboard) =
      [scenario_T1, scenario_T3, scenario_T2]"
    by (simp add: cycle_ok_recentTasks [OF up] undated_merged)
  have t1: "date_ms scenario_host (t_created_at scenario_T1) = Some 1704103200000"
    by (simp add: scenario_host_def scenario_T1_def scenario_time_def)
  have t2: "date_ms scenario_host (t_created_at scenario_T2) = Some 1704106800000"
    by (simp add: scenario_host_def scenario_T2_def scenario_time_def)
  have wrong: "\<not> not_older (date_ms scenario_host) scenario_T1 scenario_T2"
    by (simp add: not_older_def t1 t2)
  have unsorted: "\<not> sorted_wrt (not_older (date_ms scenario_host))
      [scenario_T1, scenario_T3, scenario_T2]"
    using wrong by simp
  show ?thesis
    using up answer t1 t2 wrong unsorted by (simp add: cycle_ok_error [OF up] recent)
qed

text \<open>
  C6, amended: in every published snapshot \<open>recentTasks\<close> has at most 10 entries and is
  the first 10 entries of the merged task list after the sort, which is a rearrangement
  of the merged tasks. If the creation date of every merged task parses, the sorted
  list and \<open>recentTasks\<close> are ordered most recent first, and tasks with equal creation
  time keep their fetch order.
\<close>

theorem recent_tasks_sorted_truncated:
  assumes "getAgents env = Inr ags"
  shows "length (recentTasks (loadDashboardData host env s)) \<le> 10 \<and>
         recentTasks (loadDashboardData host env s) = take 10 (merged_tasks host env ags) \<and>
         mset (merged_tasks host env ags) = mset (pushed_tasks host env ags) \<and>
         (dates_parse host (pushed_tasks host env ags) \<longrightarrow>
            sorted_wrt (not_older (date_ms host)) (merged_tasks host env ags) \<and>
            sorted_wrt (not_older (date_ms host)) (recentTasks (loadDashboardData host env s)) \<and>
            (\<forall>ms. filter (\<lambda>t. date_ms host (t_created_at t) = Some ms) (merged_tasks host env ags) =
                  filter (\<lambda>t. date_ms host (t_created_at t) = Some ms) (pushed_tasks host env ags)))"
proof -
  have recent: "recentTasks (loadDashboardData host env s) = take 10 (merged_tasks host env ags)"
    using assms by (rule cycle_ok_recentTasks)
  have perm: "mset (merged_tasks host env ags) = mset (pushed_tasks host env ags)"
    by (simp add: merged_tasks_def mset_array_sort)
  have ordered: "sorted_wrt (not_older (date_ms host)) (merged_tasks host env ags) \<and>
        sorted_wrt (not_older (date_ms host)) (take 10 (merged_tasks host env ags)) \<and>
        (\<forall>ms. filter (\<lambda>t. date_ms host (t_created_at t) = Some ms) (merged_tasks host env ags) =
              filter (\<lambda>t. date_ms host (t_created_at t) = Some ms) (pushed_tasks host env ags))"
    if parsed: "dates_parse host (pushed_tasks host env ags)"
  proof -
    have valid: "\<forall>t \<in> set (pushed_tasks host env ags). date_ms host (t_created_at t) \<noteq> None"
      using parsed by (simp add: dates_parse_def list_all_iff)
    have sorted: "merged_tasks host env ags =
        js_sort (compare_created (date_ms host)) (pushed_tasks host env ags)"
      unfolding merged_tasks_def using parsed by (rule array_sort_parsed)
    have whole: "sorted_wrt (not_older (date_ms host)) (merged_tasks host env ags)"
      unfolding sorted using valid by (rule sorted_js_sort_created)
    have front: "sorted_wrt (not_older (date_ms host)) (take 10 (merged_tasks host env ags))"
      using whole by (rule sorted_wrt_take)
    have ties: "filter (\<lambda>t. date_ms host (t_created_at t) = Some ms) (merged_tasks host env ags) =
        filter (\<lambda>t. date_ms host (t_created_at t) = Some ms) (pushed_tasks host env ags)" for ms
      unfolding sorted using valid by (rule stable_js_sort_created)
    show ?thesis
      using whole front ties by blast
  qed
  show ?thesis
    using perm ordered by (simp add: recent)
qed

theorem recent_tasks_sorted_truncated_witness:
  "getAgents scenario_env = Inr [scenario_A1, scenario_A2] \<and>
   dates_parse scenario_host (pushed_tasks scenario_host scenario_env [scenario_A1, scenario_A2]) \<and>
   recentTasks (loadDashboardData scenario_host scenario_env initial_dashboard) =
     [scenario_T2, scenario_T1] \<and>
   sorted_wrt (not_older (date_ms scenario_host))
     (recentTasks (loadDashboardData scenario_host scenario_env initial_dashboard))"
proof -
  have up: "getAgents scenario_env = Inr [scenario_A1, scenario_A2]"
    by (simp add: scenario_env_def)
  have parsed: "dates_parse scenario_host
      (pushed_tasks scenario_host scenario_env [scenario_A1, scenario_A2])"
    by (simp only: scenario_pushed)
       (simp add: dates_parse_def scenario_host_def scenario_T1_def scenario_T2_def scenario_time_def)
  note main = recent_tasks_sorted_truncated [OF up, of scenario_host initial_dashboard]
  have recent: "recentTasks (loadDashboardData scenario_host scenario_env initial_dashboard) =
      [scenario_T2, scenario_T1]"
    using main by (simp add: scenario_merged)
  have ordered: "sorted_wrt (not_older (date_ms scenario_host))
      (recentTasks (loadDashboardData scenario_host scenario_env initial_dashboard))"
    using main parsed by blast
  show ?thesis
    using up parsed recent ordered by (simp only: simp_thms)
qed

text \<open>
  C7: the counters are taken from the whole agent set and from the whole merged array
  the loop has built, not from its first 10 entries. In the scenario with agents A1
  (running) and A2 (stopped), where A1 has the tasks T1 (completed) and T2 (running,
  created later) and the fetch for A2 is rejected, the snapshot has 2 agents, 1 active,
  2 tasks, 1 completed, 1 running, 0 failed, and \<open>recentTasks = [T2, T1]\<close>.
\<close>

theorem snapshot_counters_full_set:
  "stats (loadDashboardData host (env\<lparr>getAgents := Inr ags\<rparr>) s) =
     \<lparr>totalAgents = length ags,
      activeAgents = length (filter (\<lambda>ag. a_status ag = ''running'' \<or> a_status ag = ''idle'') ags),
      totalTasks = length (fst (load_tasks host env ags ([], warnings s))),
      completedTasks = length (filter (\<lambda>t. t_status t = ''completed'')
                                 (fst (load_tasks host env ags ([], warnings s)))),
      failedTasks = length (filter (\<lambda>t. t_status t = ''failed'')
                              (fst (load_tasks host env ags ([], warnings s)))),
      runningTasks = length (filter (\<lambda>t. t_status t = ''running'')
                               (fst (load_tasks host env ags ([], warnings s))))\<rparr> \<and>
   getAgents scenario_env = Inr [scenario_A1, scenario_A2] \<and>
   a_status scenario_A1 = ''running'' \<and> a_status scenario_A2 = ''stopped'' \<and>
   getAgentTasks scenario_env (a_id scenario_A1) = Inr [scenario_T1, scenario_T2] \<and>
   t_status scenario_T1 = ''completed'' \<and> t_status scenario_T2 = ''running'' \<and>
   isl (getAgentTasks scenario_env (a_id scenario_A2)) \<and>
   stats (loadDashboardData scenario_host scenario_env s) =
     \<lparr>totalAgents = 2, activeAgents = 1, totalTasks = 2,
      completedTasks = 1, failedTasks = 0, runningTasks = 1\<rparr> \<and>
   recentTasks (loadDashboardData scenario_host scenario_env s) = [scenario_T2, scenario_T1]"
proof -
  let ?env = "env\<lparr>getAgents := Inr ags\<rparr>"
  have ok: "getAgents ?env = Inr ags"
    by simp
  have tasks: "tasks_of ?env = tasks_of env"
    by (rule ext) (simp add: tasks_of_def)
  have oks: "load_ok host ?env = load_ok host env"
    by (rule ext) (simp add: load_ok_def fetch_ok_def pushable_def)
  have same: "pushed_tasks host ?env ags = pushed_tasks host env ags"
    by (simp only: pushed_tasks_def tasks oks)
  have array: "fst (load_tasks host env ags ([], warnings s)) = pushed_tasks host env ags"
    by (simp add: load_tasks_pushed)
  have general: "stats (loadDashboardData host ?env s) = compute_stats ags (pushed_tasks host env ags)"
    by (simp only: cycle_ok_stats [OF ok] compute_stats_merged same)
  have up: "getAgents scenario_env = Inr [scenario_A1, scenario_A2]"
    by (simp add: scenario_env_def)
  have setting: "a_status scenario_A1 = ''running'' \<and> a_status scenario_A2 = ''stopped'' \<and>
      getAgentTasks scenario_env (a_id scenario_A1) = Inr [scenario_T1, scenario_T2] \<and>
      t_status scenario_T1 = ''completed'' \<and> t_status scenario_T2 = ''running'' \<and>
      isl (getAgentTasks scenario_env (a_id scenario_A2))"
    by (simp add: scenario_env_def scenario_A1_def scenario_A2_def scenario_T1_def scenario_T2_def)
  have counters: "stats (loadDashboardData scenario_host scenario_env s) =
      \<lparr>totalAgents = 2, activeAgents = 1, totalTasks = 2,
       completedTasks = 1, failedTasks = 0, runningTasks = 1\<rparr>"
    by (simp only: cycle_ok_stats [OF up] scenario_merged scenario_stats)
  have recent: "recentTasks (loadDashboardData scenario_host scenario_env s) = [scenario_T2, scenario_T1]"
    by (simp add: cycle_ok_recentTasks [OF up] scenario_merged)
  have formula: "compute_stats ags (pushed_tasks host env ags) =
     \<lparr>totalAgents = length ags,
      activeAgents = length (filter (\<lambda>ag. a_status ag = ''running'' \<or> a_status ag = ''idle'') ags),
      totalTasks = length (pushed_tasks host env ags),
      completedTasks = length (filter (\<lambda>t. t_status t = ''completed'') (pushed_tasks host env ags)),
      failedTasks = length (filter (\<lambda>t. t_status t = ''failed'') (pushed_tasks host env ags)),
      runningTasks = length (filter (\<lambda>t. t_status t = ''running'') (pushed_tasks host env ags))\<rparr>"
    by (simp add: compute_stats_def)
  show ?thesis
    using general formula up setting counters recent by (simp only: array simp_thms)
qed

text \<open>
  C9 as stated fails: a cycle whose health fetch is rejected, run after a cycle whose
  health fetch resolved, publishes its snapshot with the earlier health value still in
  place, not with an absent one.
\<close>

theorem health_failure_counterexample:
  "getAgents stale_env = Inr [scenario_A1, scenario_A2] \<and>
   getHealth stale_env = Inl (ErrorObj ''timeout of 10000ms exceeded'') \<and>
   error (loadDashboardData scenario_host stale_env
            (loadDashboardData scenario_host scenario_env initial_dashboard)) = None \<and>
   healthStatus (loadDashboardData scenario_host stale_env
            (loadDashboardData scenario_host scenario_env initial_dashboard)) = Some scenario_health \<and>
   healthStatus (loadDashboardData scenario_host stale_env
            (loadDashboardData scenario_host scenario_env initial_dashboard)) \<noteq> None"
proof -
  have up: "getAgents scenario_env = Inr [scenario_A1, scenario_A2]"
    by (simp add: scenario_env_def)
  have up': "getAgents stale_env = Inr [scenario_A1, scenario_A2]"
    by (simp add: stale_env_def)
  have down: "getHealth stale_env = Inl (ErrorObj ''timeout of 10000ms exceeded'')"
    by (simp add: stale_env_def)
  have healthy: "getHealth scenario_env = Inr scenario_health"
    by (simp add: scenario_env_def)
  have first: "healthStatus (loadDashboardData scenario_host scenario_env initial_dashboard) =
      Some scenario_health"
    by (simp add: cycle_ok_healthStatus [OF up] healthy)
  have second: "healthStatus (loadDashboardData scenario_host stale_env
      (loadDashboardData scenario_host scenario_env initial_dashboard)) = Some scenario_health"
    by (simp add: cycle_ok_healthStatus [OF up'] down first)
  show ?thesis
    using up' down second by (simp add: cycle_ok_error [OF up'])
qed

text \<open>
  C9, amended: when the health fetch is rejected the cycle still publishes its counters
  and recent tasks without a cycle error, writes a warning, and leaves the health field
  as it was before the cycle; it is absent only if no earlier cycle has set it, as on
  the first cycle.
\<close>

theorem health_failure_keeps_previous_health:
  assumes "getAgents env = Inr ags"
    and "getHealth env = Inl err"
  shows "error (loadDashboardData host env s) = None \<and>
         stats (loadDashboardData host env s) = compute_stats ags (pushed_tasks host env ags) \<and>
         recentTasks (loadDashboardData host env s) = take 10 (merged_tasks host env ags) \<and>
         healthStatus (loadDashboardData host env s) = healthStatus s \<and>
         healthStatus (loadDashboardData host env initial_dashboard) = None \<and>
         last (warnings (loadDashboardData host env s)) = ''Failed to load health status:''"
  using assms
  by (simp add: cycle_ok_error cycle_ok_stats cycle_ok_recentTasks cycle_ok_healthStatus
      cycle_ok_warnings compute_stats_merged initial_dashboard_def)

theorem health_failure_keeps_previous_health_witness:
  "getAgents stale_env = Inr [scenario_A1, scenario_A2] \<and>
   getHealth stale_env = Inl (ErrorObj ''timeout of 10000ms exceeded'') \<and>
   error (loadDashboardData scenario_host stale_env initial_dashboard) = None \<and>
   healthStatus (loadDashboardData scenario_host stale_env initial_dashboard) = None"
proof -
  have up: "getAgents stale_env = Inr [scenario_A1, scenario_A2]"
    by (simp add: stale_env_def)
  have down: "getHealth stale_env = Inl (ErrorObj ''timeout of 10000ms exceeded'')"
    by (simp add: stale_env_def)
  show ?thesis
    using health_failure_keeps_previous_health [OF up down, of scenario_host initial_dashboard] up down
    by (simp add: initial_dashboard_def)
qed

text \<open>
  C10: when the fetched agent set is empty, the cycle still publishes a snapshot (no cycle
  error) in which every counter is zero and \<open>recentTasks\<close> is the empty list.
\<close>

theorem empty_agent_set_snapshot:
  "error (loadDashboardData host (env\<lparr>getAgents := Inr []\<rparr>) s) = None \<and>
   stats (loadDashboardData host (env\<lparr>getAgents := Inr []\<rparr>) s) =
     \<lparr>totalAgents = 0, activeAgents = 0, totalTasks = 0,
      completedTasks = 0, failedTasks = 0, runningTasks = 0\<rparr> \<and>
   recentTasks (loadDashboardData host (env\<lparr>getAgents := Inr []\<rparr>) s) = [] \<and>
   agents (loadDashboardData host (env\<lparr>getAgents := Inr []\<rparr>) s) = [] \<and>
   loading (loadDashboardData host (env\<lparr>getAgents := Inr []\<rparr>) s) = False"
  by (simp add: loadDashboardData_def compute_stats_def array_sort_def Let_def split: sum.split)

section \<open>Properties of the push client\<close>

subsection \<open>Listener calls and the iteration\<close>

lemma array_of_subscribe:
  "array_of (subscribe eventType callback s) topic =
     (if eventType = topic then array_of s topic @ [callback] else array_of s topic)"
  by (auto simp: array_of_def subscribe_def Let_def split: option.splits)

lemma array_of_unsubscribe_other:
  "eventType \<noteq> topic \<Longrightarrow> array_of (unsubscribe eventType callback s) topic = array_of s topic"
  by (auto simp: array_of_def unsubscribe_def Let_def split: option.splits)

lemma subscribe_frame:
  "ws (subscribe t c s) = ws s \<and> sockets (subscribe t c s) = sockets s \<and>
   timers (subscribe t c s) = timers s \<and> console (subscribe t c s) = console s \<and>
   calls (subscribe t c s) = calls s"
  by (auto simp: subscribe_def Let_def split: option.splits)

lemma unsubscribe_frame:
  "ws (unsubscribe t c s) = ws s \<and> sockets (unsubscribe t c s) = sockets s \<and>
   timers (unsubscribe t c s) = timers s \<and> console (unsubscribe t c s) = console s \<and>
   calls (unsubscribe t c s) = calls s"
  by (auto simp: unsubscribe_def Let_def split: option.splits)

lemma run_body_frame:
  "ws (outcome (run_body body s)) = ws s \<and> sockets (outcome (run_body body s)) = sockets s \<and>
   timers (outcome (run_body body s)) = timers s \<and> console (outcome (run_body body s)) = console s \<and>
   calls (outcome (run_body body s)) = calls s"
proof (induction body s rule: run_body.induct)
  case (1 s)
  show ?case by (simp add: outcome_def)
next
  case (2 eventType callback rest s)
  then show ?case by (simp add: subscribe_frame)
next
  case (3 eventType callback rest s)
  then show ?case by (simp add: unsubscribe_frame)
next
  case (4 rest s)
  show ?case by (simp add: outcome_def)
qed

lemma run_body_quiet:
  assumes "list_all (keeps topic) body" and "Throw \<notin> set body"
  shows "\<exists>s' ys. run_body body s = Inr s' \<and> array_of s' topic = array_of s topic @ ys"
  using assms
proof (induction body s rule: run_body.induct)
  case (1 s)
  show ?case by simp
next
  case (2 eventType callback rest s)
  then obtain s' ys where "run_body rest (subscribe eventType callback s) = Inr s'"
    and "array_of s' topic = array_of (subscribe eventType callback s) topic @ ys"
    by auto
  then show ?case by (auto simp: array_of_subscribe)
next
  case (3 eventType callback rest s)
  then obtain s' ys where "run_body rest (unsubscribe eventType callback s) = Inr s'"
    and "array_of s' topic = array_of (unsubscribe eventType callback s) topic @ ys"
    by auto
  moreover have "eventType \<noteq> topic" using 3 by simp
  ultimately show ?case by (auto simp: array_of_unsubscribe_other)
next
  case (4 rest s)
  then show ?case by simp
qed

lemma run_body_throws:
  assumes "list_all (keeps topic) body" and "Throw \<in> set body"
  shows "\<exists>s' ys. run_body body s = Inl s' \<and> array_of s' topic = array_of s topic @ ys"
  using assms
proof (induction body s rule: run_body.induct)
  case (1 s)
  then show ?case by simp
next
  case (2 eventType callback rest s)
  then obtain s' ys where "run_body rest (subscribe eventType callback s) = Inl s'"
    and "array_of s' topic = array_of (subscribe eventType callback s) topic @ ys"
    by auto
  then show ?case by (auto simp: array_of_subscribe)
next
  case (3 eventType callback rest s)
  then obtain s' ys where "run_body rest (unsubscribe eventType callback s) = Inl s'"
    and "array_of s' topic = array_of (unsubscribe eventType callback s) topic @ ys"
    by auto
  moreover have "eventType \<noteq> topic" using 3 by simp
  ultimately show ?case by (auto simp: array_of_unsubscribe_other)
next
  case (4 rest s)
  show ?case by simp
qed

lemma call_listener_calls:
  "calls (outcome (call_listener bodies c data s)) = calls s @ [(c, data)] \<and>
   ws (outcome (call_listener bodies c data s)) = ws s \<and>
   sockets (outcome (call_listener bodies c data s)) = sockets s \<and>
   timers (outcome (call_listener bodies c data s)) = timers s \<and>
   console (outcome (call_listener bodies c data s)) = console s"
  by (simp add: call_listener_def run_body_frame)

lemma call_listener_quiet:
  assumes "quiet topic (bodies c)"
  shows "\<exists>s' ys. call_listener bodies c data s = Inr s' \<and>
           array_of s' topic = array_of s topic @ ys \<and> calls s' = calls s @ [(c, data)] \<and>
           console s' = console s"
proof -
  let ?s = "s\<lparr>calls := calls s @ [(c, data)]\<rparr>"
  obtain s' ys where r: "run_body (bodies c) ?s = Inr s'"
    and a: "array_of s' topic = array_of ?s topic @ ys"
    using run_body_quiet [of topic "bodies c" ?s] assms by (auto simp: quiet_def)
  have "outcome (call_listener bodies c data s) = s'"
    by (simp add: call_listener_def r outcome_def)
  with call_listener_calls [of bodies c data s]
  have "calls s' = calls s @ [(c, data)]" "console s' = console s" by auto
  moreover have "array_of ?s topic = array_of s topic" by (simp add: array_of_def)
  ultimately show ?thesis using r a by (auto simp: call_listener_def)
qed

lemma call_listener_throws:
  assumes "list_all (keeps topic) (bodies c)" and "Throw \<in> set (bodies c)"
  shows "\<exists>s' ys. call_listener bodies c data s = Inl s' \<and>
           array_of s' topic = array_of s topic @ ys \<and> calls s' = calls s @ [(c, data)] \<and>
           console s' = console s"
proof -
  let ?s = "s\<lparr>calls := calls s @ [(c, data)]\<rparr>"
  obtain s' ys where r: "run_body (bodies c) ?s = Inl s'"
    and a: "array_of s' topic = array_of ?s topic @ ys"
    using run_body_throws [of topic "bodies c" ?s] assms by auto
  have "outcome (call_listener bodies c data s) = s'"
    by (simp add: call_listener_def r outcome_def)
  with call_listener_calls [of bodies c data s]
  have "calls s' = calls s @ [(c, data)]" "console s' = console s" by auto
  moreover have "array_of ?s topic = array_of s topic" by (simp add: array_of_def)
  ultimately show ?thesis using r a by (auto simp: call_listener_def)
qed

lemma forEach_frame:
  "ws (outcome (forEach bodies topic data len k s)) = ws s \<and>
   sockets (outcome (forEach bodies topic data len k s)) = sockets s \<and>
   timers (outcome (forEach bodies topic data len k s)) = timers s \<and>
   console (outcome (forEach bodies topic data len k s)) = console s"
proof (induction bodies topic data len k s rule: forEach.induct)
  case (1 bodies topic data len k s)
  show ?case
  proof (cases "k < len")
    case False
    then have "forEach bodies topic data len k s = Inr s"
      by (subst forEach.simps) simp
    then show ?thesis by (simp add: outcome_def)
  next
    case True
    show ?thesis
    proof (cases "k < length (array_of s topic)")
      case False
      with True have "forEach bodies topic data len k s = forEach bodies topic data len (k + 1) s"
        by (subst forEach.simps) simp
      with True False 1(2) show ?thesis by simp
    next
      case inside: True
      let ?r = "call_listener bodies (array_of s topic ! k) data s"
      note fr = call_listener_calls [of bodies "array_of s topic ! k" data s]
      show ?thesis
      proof (cases ?r)
        case (Inl s')
        with fr have "ws s' = ws s \<and> sockets s' = sockets s \<and> timers s' = timers s \<and> console s' = console s"
          by (simp add: outcome_def)
        moreover have "forEach bodies topic data len k s = Inl s'"
          using True inside Inl by (subst forEach.simps) simp
        ultimately show ?thesis by (simp add: outcome_def)
      next
        case (Inr s')
        with fr have same: "ws s' = ws s \<and> sockets s' = sockets s \<and> timers s' = timers s \<and> console s' = console s"
          by (simp add: outcome_def)
        have "forEach bodies topic data len k s = forEach bodies topic data len (k + 1) s'"
          using True inside Inr by (subst forEach.simps) simp
        with 1(1) [OF True inside Inr] same show ?thesis by simp
      qed
    qed
  qed
qed

lemma forEach_quiet:
  assumes "array_of s topic = xs @ ys" and "k \<le> length xs"
    and "\<forall>c \<in> set (drop k xs). quiet topic (bodies c)"
  shows "\<exists>s' ys'. forEach bodies topic data (length xs) k s = Inr s' \<and>
           array_of s' topic = xs @ ys' \<and>
           calls s' = calls s @ map (\<lambda>c. (c, data)) (drop k xs)"
  using assms
proof (induction "length xs - k" arbitrary: k s ys)
  case 0
  then have "k = length xs" by simp
  then show ?case using 0 by (subst forEach.simps) simp
next
  case (Suc n)
  then have k: "k < length xs" by simp
  then have here: "array_of s topic ! k = xs ! k" "k < length (array_of s topic)"
    using Suc.prems(1) by (simp_all add: nth_append)
  have "xs ! k \<in> set (drop k xs)"
    using k by (metis Cons_nth_drop_Suc list.set_intros(1))
  then have "quiet topic (bodies (xs ! k))" using Suc.prems(3) by blast
  then obtain s1 ys1 where r: "call_listener bodies (xs ! k) data s = Inr s1"
    and a: "array_of s1 topic = array_of s topic @ ys1"
    and c: "calls s1 = calls s @ [(xs ! k, data)]"
    using call_listener_quiet [of topic bodies "xs ! k" data s] by blast
  have unfold: "forEach bodies topic data (length xs) k s =
      forEach bodies topic data (length xs) (k + 1) s1"
    using k here r by (subst forEach.simps) simp
  have a': "array_of s1 topic = xs @ (ys @ ys1)" using a Suc.prems(1) by simp
  have rest: "\<forall>c \<in> set (drop (k + 1) xs). quiet topic (bodies c)"
  proof -
    have "set (drop (k + 1) xs) \<subseteq> set (drop k xs)"
      by (rule set_drop_subset_set_drop) simp
    then show ?thesis using Suc.prems(3) by blast
  qed
  have m: "n = length xs - (k + 1)" using Suc.hyps(2) by simp
  obtain s' ys' where "forEach bodies topic data (length xs) (k + 1) s1 = Inr s'"
    and "array_of s' topic = xs @ ys'"
    and "calls s' = calls s1 @ map (\<lambda>c. (c, data)) (drop (k + 1) xs)"
    using Suc.hyps(1) [OF m a' _ rest] k by auto
  then show ?case
    using unfold c k by (auto simp: Cons_nth_drop_Suc [symmetric])
qed

lemma forEach_throws:
  assumes "array_of s topic = xs @ ys" and "k \<le> i" and "i < length xs"
    and "\<forall>j. k \<le> j \<and> j < i \<longrightarrow> quiet topic (bodies (xs ! j))"
    and "list_all (keeps topic) (bodies (xs ! i))" and "Throw \<in> set (bodies (xs ! i))"
  shows "\<exists>s' ys'. forEach bodies topic data (length xs) k s = Inl s' \<and>
           array_of s' topic = xs @ ys' \<and>
           calls s' = calls s @ map (\<lambda>c. (c, data)) (drop k (take (Suc i) xs))"
  using assms(1,2,4)
proof (induction "i - k" arbitrary: k s ys)
  case 0
  then have ki: "k = i" by simp
  have here: "array_of s topic ! i = xs ! i" "i < length (array_of s topic)"
    using 0(2) assms(3) by (simp_all add: nth_append)
  obtain s1 ys1 where r: "call_listener bodies (xs ! i) data s = Inl s1"
    and a: "array_of s1 topic = array_of s topic @ ys1"
    and c: "calls s1 = calls s @ [(xs ! i, data)]"
    using call_listener_throws [of topic bodies "xs ! i" data s] assms(5,6) by blast
  have unfold: "forEach bodies topic data (length xs) i s = Inl s1"
    using assms(3) here r by (subst forEach.simps) simp
  have "drop i (take (Suc i) xs) = [xs ! i]"
    using assms(3) by (simp add: take_Suc_conv_app_nth)
  then show ?case
    using unfold a c 0(2) ki by auto
next
  case (Suc n)
  then have k: "k < i" by simp
  then have kx: "k < length xs" using assms(3) by simp
  have here: "array_of s topic ! k = xs ! k" "k < length (array_of s topic)"
    using Suc.prems(1) kx by (simp_all add: nth_append)
  have "quiet topic (bodies (xs ! k))" using Suc.prems(3) k by simp
  then obtain s1 ys1 where r: "call_listener bodies (xs ! k) data s = Inr s1"
    and a: "array_of s1 topic = array_of s topic @ ys1"
    and c: "calls s1 = calls s @ [(xs ! k, data)]"
    using call_listener_quiet [of topic bodies "xs ! k" data s] by blast
  have unfold: "forEach bodies topic data (length xs) k s =
      forEach bodies topic data (length xs) (k + 1) s1"
    using kx here r by (subst forEach.simps) simp
  have a': "array_of s1 topic = xs @ (ys @ ys1)" using a Suc.prems(1) by simp
  have m: "n = i - (k + 1)" using Suc.hyps(2) by simp
  have le: "k + 1 \<le> i" using k by simp
  have rest: "\<forall>j. k + 1 \<le> j \<and> j < i \<longrightarrow> quiet topic (bodies (xs ! j))"
    using Suc.prems(3) by simp
  obtain s' ys' where f: "forEach bodies topic data (length xs) (k + 1) s1 = Inl s'"
    and a2: "array_of s' topic = xs @ ys'"
    and c2: "calls s' = calls s1 @ map (\<lambda>c. (c, data)) (drop (k + 1) (take (Suc i) xs))"
    using Suc.hyps(1) [OF m a' le rest] by auto
  have len: "k < length (take (Suc i) xs)" using k assms(3) by simp
  have "take (Suc i) xs ! k # drop (Suc k) (take (Suc i) xs) = drop k (take (Suc i) xs)"
    using len by (rule Cons_nth_drop_Suc)
  moreover have "take (Suc i) xs ! k = xs ! k" using k by simp
  ultimately have "drop k (take (Suc i) xs) = xs ! k # drop (k + 1) (take (Suc i) xs)"
    by (simp only: Suc_eq_plus1)
  then show ?case
    using unfold f a2 c2 c by simp
qed

subsection \<open>The shape of a dispatch pass\<close>

lemma run_body_isl: "isl (run_body body s) = (Throw \<in> set body)"
  by (induction body s rule: run_body.induct) simp_all

lemma call_listener_isl: "isl (call_listener bodies c data s) = (Throw \<in> set (bodies c))"
  by (simp add: call_listener_def run_body_isl)

lemma forEach_calls_bound:
  "length (calls (outcome (forEach bodies topic data len k s))) \<le> length (calls s) + (len - k)"
proof (induction bodies topic data len k s rule: forEach.induct)
  case (1 bodies topic data len k s)
  show ?case
  proof (cases "k < len")
    case False
    then have "forEach bodies topic data len k s = Inr s"
      by (subst forEach.simps) simp
    then show ?thesis by (simp add: outcome_def)
  next
    case True
    show ?thesis
    proof (cases "k < length (array_of s topic)")
      case False
      with True have "forEach bodies topic data len k s = forEach bodies topic data len (k + 1) s"
        by (subst forEach.simps) simp
      with True False 1(2) show ?thesis by simp
    next
      case inside: True
      let ?r = "call_listener bodies (array_of s topic ! k) data s"
      have one: "calls (outcome ?r) = calls s @ [(array_of s topic ! k, data)]"
        using call_listener_calls [of bodies "array_of s topic ! k" data s] by simp
      show ?thesis
      proof (cases ?r)
        case (Inl s')
        have "forEach bodies topic data len k s = Inl s'"
          using True inside Inl by (subst forEach.simps) simp
        moreover have "length (calls s') = length (calls s) + 1"
          using one Inl by (simp add: outcome_def)
        ultimately show ?thesis using True by (simp add: outcome_def)
      next
        case (Inr s')
        have "forEach bodies topic data len k s = forEach bodies topic data len (k + 1) s'"
          using True inside Inr by (subst forEach.simps) simp
        moreover have "length (calls s') = length (calls s) + 1"
          using one Inr by (simp add: outcome_def)
        ultimately show ?thesis using 1(1) [OF True inside Inr] True by simp
      qed
    qed
  qed
qed

lemma forEach_shape:
  "\<exists>new. calls (outcome (forEach bodies topic data len k s)) = calls s @ map (\<lambda>c. (c, data)) new \<and>
         (\<forall>c \<in> set (butlast new). Throw \<notin> set (bodies c)) \<and>
         isl (forEach bodies topic data len k s) = (new \<noteq> [] \<and> Throw \<in> set (bodies (last new)))"
proof (induction bodies topic data len k s rule: forEach.induct)
  case (1 bodies topic data len k s)
  show ?case
  proof (cases "k < len")
    case False
    then have "forEach bodies topic data len k s = Inr s"
      by (subst forEach.simps) simp
    then show ?thesis by (simp add: outcome_def)
  next
    case True
    show ?thesis
    proof (cases "k < length (array_of s topic)")
      case False
      with True have "forEach bodies topic data len k s = forEach bodies topic data len (k + 1) s"
        by (subst forEach.simps) simp
      with True False 1(2) show ?thesis by simp
    next
      case inside: True
      let ?c = "array_of s topic ! k"
      let ?r = "call_listener bodies ?c data s"
      have one: "calls (outcome ?r) = calls s @ [(?c, data)]"
        using call_listener_calls [of bodies ?c data s] by simp
      have thrown: "isl ?r = (Throw \<in> set (bodies ?c))"
        by (rule call_listener_isl)
      show ?thesis
      proof (cases ?r)
        case (Inl s')
        have eq: "forEach bodies topic data len k s = Inl s'"
          using True inside Inl by (subst forEach.simps) simp
        have "calls s' = calls s @ map (\<lambda>c. (c, data)) [?c]"
          using one Inl by (simp add: outcome_def)
        moreover have "Throw \<in> set (bodies ?c)" using thrown Inl by simp
        ultimately have "calls (outcome (Inl s')) = calls s @ map (\<lambda>c. (c, data)) [?c] \<and>
            (\<forall>c \<in> set (butlast [?c]). Throw \<notin> set (bodies c)) \<and>
            isl (Inl s' :: ws_service + ws_service) = ([?c] \<noteq> [] \<and> Throw \<in> set (bodies (last [?c])))"
          by (simp add: outcome_def)
        then show ?thesis unfolding eq by blast
      next
        case (Inr s')
        have eq: "forEach bodies topic data len k s = forEach bodies topic data len (k + 1) s'"
          using True inside Inr by (subst forEach.simps) simp
        have c1: "calls s' = calls s @ [(?c, data)]"
          using one Inr by (simp add: outcome_def)
        have quiet1: "Throw \<notin> set (bodies ?c)" using thrown Inr by simp
        obtain new where
          n1: "calls (outcome (forEach bodies topic data len (k + 1) s')) =
                 calls s' @ map (\<lambda>c. (c, data)) new"
          and n2: "\<forall>c \<in> set (butlast new). Throw \<notin> set (bodies c)"
          and n3: "isl (forEach bodies topic data len (k + 1) s') =
                 (new \<noteq> [] \<and> Throw \<in> set (bodies (last new)))"
          using 1(1) [OF True inside Inr] by blast
        have m1: "calls (outcome (forEach bodies topic data len (k + 1) s')) =
            calls s @ map (\<lambda>c. (c, data)) (?c # new)"
          using n1 c1 by simp
        have m2: "\<forall>c \<in> set (butlast (?c # new)). Throw \<notin> set (bodies c)"
          using n2 quiet1 by simp
        have m3: "isl (forEach bodies topic data len (k + 1) s') =
            (?c # new \<noteq> [] \<and> Throw \<in> set (bodies (last (?c # new))))"
          using n3 quiet1 by simp
        show ?thesis unfolding eq using m1 m2 m3 by blast
      qed
    qed
  qed
qed

lemma onmessage_typed:
  "onmessage bodies (Typed topic data) s =
     (case forEach bodies topic data (length (array_of s topic)) 0 s of
        Inr s' \<Rightarrow> s'
      | Inl s' \<Rightarrow> s'\<lparr>console := console s' @ [''Error parsing WebSocket message:'']\<rparr>)"
  by (simp add: onmessage_def)

lemma onmessage_calls:
  "calls (onmessage bodies (Typed topic data) s) =
     calls (outcome (forEach bodies topic data (length (array_of s topic)) 0 s))"
  by (simp add: onmessage_typed outcome_def split: sum.split)

lemma onmessage_console:
  "console (onmessage bodies (Typed topic data) s) =
     (if isl (forEach bodies topic data (length (array_of s topic)) 0 s)
      then console s @ [''Error parsing WebSocket message:''] else console s)"
proof -
  have "console (outcome (forEach bodies topic data (length (array_of s topic)) 0 s)) = console s"
    using forEach_frame [of bodies topic data "length (array_of s topic)" 0 s] by simp
  then show ?thesis
    by (cases "forEach bodies topic data (length (array_of s topic)) 0 s")
       (simp_all add: onmessage_typed outcome_def)
qed

lemma pass_shape:
  "calls (onmessage bodies (Typed topic data) s) =
     calls s @ map (\<lambda>c. (c, data)) (invoked bodies topic data s) \<and>
   list_all (\<lambda>c. Throw \<notin> set (bodies c)) (butlast (invoked bodies topic data s)) \<and>
   console (onmessage bodies (Typed topic data) s) =
     (if invoked bodies topic data s \<noteq> [] \<and>
         Throw \<in> set (bodies (last (invoked bodies topic data s)))
      then console s @ [''Error parsing WebSocket message:''] else console s)"
proof -
  obtain new where
    n1: "calls (outcome (forEach bodies topic data (length (array_of s topic)) 0 s)) =
           calls s @ map (\<lambda>c. (c, data)) new"
    and n2: "\<forall>c \<in> set (butlast new). Throw \<notin> set (bodies c)"
    and n3: "isl (forEach bodies topic data (length (array_of s topic)) 0 s) =
           (new \<noteq> [] \<and> Throw \<in> set (bodies (last new)))"
    using forEach_shape [of bodies topic data "length (array_of s topic)" 0 s] by blast
  have "invoked bodies topic data s = map fst (map (\<lambda>c. (c, data)) new)"
    by (simp add: invoked_def onmessage_calls n1)
  then have inv: "invoked bodies topic data s = new"
    by (simp add: comp_def)
  show ?thesis
    using n1 n2 n3 by (simp add: inv onmessage_calls onmessage_console list_all_iff)
qed

subsection \<open>The claims about the push client\<close>

lemma two_listeners_state:
  "two_listeners bodies =
     \<lparr>ws = Some 0, listeners = [''agent_status'' \<mapsto> [1, 2]], sockets = [OPEN], timers = [],
      console = [''WebSocket connected''], calls = []\<rparr>"
  by (simp add: two_listeners_def run_def step_def new_service_def subscribe_def connect_def
      onopen_def Let_def)

lemma two_listeners_array: "array_of (two_listeners bodies) ''agent_status'' = [1, 2]"
  by (simp add: two_listeners_state array_of_def)

lemma three_listeners_state:
  "three_listeners bodies =
     \<lparr>ws = Some 0, listeners = [''agent_status'' \<mapsto> [1, 2, 3]], sockets = [OPEN], timers = [],
      console = [''WebSocket connected''], calls = []\<rparr>"
  by (simp add: three_listeners_def run_def step_def new_service_def subscribe_def connect_def
      onopen_def Let_def)

lemma three_listeners_array: "array_of (three_listeners bodies) ''agent_status'' = [1, 2, 3]"
  by (simp add: three_listeners_state array_of_def)

lemma invoked_eq:
  assumes "calls (onmessage bodies (Typed topic data) s) = calls s @ map (\<lambda>c. (c, data)) new"
  shows "invoked bodies topic data s = new"
  by (simp add: invoked_def assms comp_def)

text \<open>
  C2 as stated fails. With listeners 1 and 2 registered before the pass, a listener 1 that
  unsubscribes itself makes the pass skip listener 2; and if it also subscribes a new
  listener 3, the pass calls listener 3, which was not registered before the pass began.
\<close>

theorem dispatch_live_list_counterexample:
  "array_of (two_listeners selfish_bodies) ''agent_status'' = [1, 2] \<and>
   calls (two_listeners selfish_bodies) = [] \<and>
   calls (onmessage selfish_bodies (Typed ''agent_status'' ''d'') (two_listeners selfish_bodies)) =
     [(1, ''d'')] \<and>
   array_of (two_listeners swapping_bodies) ''agent_status'' = [1, 2] \<and>
   calls (onmessage swapping_bodies (Typed ''agent_status'' ''d'') (two_listeners swapping_bodies)) =
     [(1, ''d''), (3, ''d'')]"
  by (simp add: two_listeners_state array_of_def onmessage_def forEach.simps call_listener_def
      selfish_bodies_def swapping_bodies_def unsubscribe_def subscribe_def splice1_def Let_def)

text \<open>
  C2, amended: a dispatch takes no snapshot. It iterates the topic's live array, visiting
  as many positions as the array had entries when the pass began, so a pass calls at
  most that many listeners. If no listener registered for the topic unsubscribes from
  that topic or throws, the pass calls exactly the listeners registered before it began,
  in registration order; the listeners they subscribe meanwhile are appended behind
  them and are not called in that pass.
\<close>

theorem dispatch_without_unsubscribe:
  "length (invoked bodies topic data s) \<le> length (array_of s topic) \<and>
   calls (onmessage bodies (Typed topic data) s) =
     calls s @ map (\<lambda>c. (c, data)) (invoked bodies topic data s) \<and>
   (list_all (\<lambda>c. quiet topic (bodies c)) (array_of s topic) \<longrightarrow>
      invoked bodies topic data s = array_of s topic \<and>
      take (length (array_of s topic)) (array_of (onmessage bodies (Typed topic data) s) topic) =
        array_of s topic \<and>
      console (onmessage bodies (Typed topic data) s) = console s)"
proof -
  let ?xs = "array_of s topic"
  let ?s' = "onmessage bodies (Typed topic data) s"
  have shape: "calls ?s' = calls s @ map (\<lambda>c. (c, data)) (invoked bodies topic data s)"
    using pass_shape [of bodies topic data s] by blast
  have "length (calls ?s') \<le> length (calls s) + (length ?xs - 0)"
    unfolding onmessage_calls by (rule forEach_calls_bound)
  then have bound: "length (invoked bodies topic data s) \<le> length ?xs"
    by (simp add: invoked_def)
  have exact: "invoked bodies topic data s = ?xs \<and>
      take (length ?xs) (array_of ?s' topic) = ?xs \<and> console ?s' = console s"
    if all: "list_all (\<lambda>c. quiet topic (bodies c)) ?xs"
  proof -
    have q: "\<forall>c \<in> set (drop 0 ?xs). quiet topic (bodies c)"
      using all by (simp add: list_all_iff)
    have a: "array_of s topic = ?xs @ []" by simp
    obtain s' ys' where f: "forEach bodies topic data (length ?xs) 0 s = Inr s'"
      and a': "array_of s' topic = ?xs @ ys'"
      and c: "calls s' = calls s @ map (\<lambda>c. (c, data)) (drop 0 ?xs)"
      using forEach_quiet [OF a _ q, of data] by auto
    have "console (outcome (forEach bodies topic data (length ?xs) 0 s)) = console s"
      using forEach_frame [of bodies topic data "length ?xs" 0 s] by simp
    then have k: "console s' = console s" by (simp add: f outcome_def)
    have same: "?s' = s'"
      by (simp add: onmessage_typed f)
    have "invoked bodies topic data s = ?xs"
      by (rule invoked_eq) (simp add: same c)
    then show ?thesis using a' k by (simp add: same)
  qed
  show ?thesis
    using bound shape exact by blast
qed

theorem dispatch_without_unsubscribe_witness:
  "list_all (\<lambda>c. quiet ''agent_status'' (growing_bodies c))
     (array_of (two_listeners growing_bodies) ''agent_status'') \<and>
   array_of (two_listeners growing_bodies) ''agent_status'' = [1, 2] \<and>
   invoked growing_bodies ''agent_status'' ''d'' (two_listeners growing_bodies) = [1, 2] \<and>
   calls (onmessage growing_bodies (Typed ''agent_status'' ''d'') (two_listeners growing_bodies)) =
     [(1, ''d''), (2, ''d'')]"
proof -
  have a: "array_of (two_listeners growing_bodies) ''agent_status'' = [1, 2]"
    by (rule two_listeners_array)
  have q: "list_all (\<lambda>c. quiet ''agent_status'' (growing_bodies c))
      (array_of (two_listeners growing_bodies) ''agent_status'')"
    by (simp add: a quiet_def growing_bodies_def)
  have c: "calls (two_listeners growing_bodies) = []"
    by (simp add: two_listeners_state)
  note main = dispatch_without_unsubscribe
    [of growing_bodies "''agent_status''" "''d''" "two_listeners growing_bodies"]
  have i: "invoked growing_bodies ''agent_status'' ''d'' (two_listeners growing_bodies) = [1, 2]"
    using main q a by simp
  have k: "calls (onmessage growing_bodies (Typed ''agent_status'' ''d'')
      (two_listeners growing_bodies)) = [(1, ''d''), (2, ''d'')]"
    using main by (simp add: i c)
  show ?thesis
    using q a i k by (simp only: simp_thms)
qed

text \<open>
  C3 as stated fails. With listeners 1 and 2 registered, a listener 1 that throws ends the
  pass: listener 2 is not called. The exception is caught and written to the console.
\<close>

theorem throwing_listener_counterexample:
  "array_of (two_listeners failing_bodies) ''agent_status'' = [1, 2] \<and>
   failing_bodies 1 = [Throw] \<and>
   calls (onmessage failing_bodies (Typed ''agent_status'' ''d'') (two_listeners failing_bodies)) =
     [(1, ''d'')] \<and>
   console (onmessage failing_bodies (Typed ''agent_status'' ''d'') (two_listeners failing_bodies)) =
     [''WebSocket connected'', ''Error parsing WebSocket message:'']"
  by (simp add: two_listeners_state array_of_def onmessage_def forEach.simps call_listener_def
      failing_bodies_def)

text \<open>
  C3, amended: a listener that throws ends the pass. No listener called before the last
  one of a pass throws; if the last one throws, the message handler catches the
  exception and writes one error line to the console, and otherwise the pass writes
  nothing. If the listener at index \<open>i\<close> of the topic's array throws, no listener before
  it throws or unsubscribes from the topic, and it does not unsubscribe from the topic
  itself, the pass calls exactly the listeners at the indices up to \<open>i\<close>, in order,
  and none of those behind.
\<close>

theorem throwing_listener_aborts_pass:
  "calls (onmessage bodies (Typed topic data) s) =
     calls s @ map (\<lambda>c. (c, data)) (invoked bodies topic data s) \<and>
   list_all (\<lambda>c. Throw \<notin> set (bodies c)) (butlast (invoked bodies topic data s)) \<and>
   console (onmessage bodies (Typed topic data) s) =
     (if invoked bodies topic data s \<noteq> [] \<and>
         Throw \<in> set (bodies (last (invoked bodies topic data s)))
      then console s @ [''Error parsing WebSocket message:''] else console s) \<and>
   (i < length (array_of s topic) \<and>
    list_all (\<lambda>c. quiet topic (bodies c)) (take i (array_of s topic)) \<and>
    list_all (keeps topic) (bodies (array_of s topic ! i)) \<and>
    Throw \<in> set (bodies (array_of s topic ! i)) \<longrightarrow>
      invoked bodies topic data s = take (Suc i) (array_of s topic) \<and>
      console (onmessage bodies (Typed topic data) s) =
        console s @ [''Error parsing WebSocket message:''])"
proof -
  let ?xs = "array_of s topic"
  let ?s' = "onmessage bodies (Typed topic data) s"
  note shape = pass_shape [of bodies topic data s]
  have exact: "invoked bodies topic data s = take (Suc i) ?xs \<and>
      console ?s' = console s @ [''Error parsing WebSocket message:'']"
    if h: "i < length ?xs \<and> list_all (\<lambda>c. quiet topic (bodies c)) (take i ?xs) \<and>
      list_all (keeps topic) (bodies (?xs ! i)) \<and> Throw \<in> set (bodies (?xs ! i))"
  proof -
    have q: "\<forall>j. 0 \<le> j \<and> j < i \<longrightarrow> quiet topic (bodies (?xs ! j))"
      using h by (simp add: list_all_length)
    have a: "array_of s topic = ?xs @ []" by simp
    have i: "i < length ?xs" and k: "list_all (keeps topic) (bodies (?xs ! i))"
      and t: "Throw \<in> set (bodies (?xs ! i))"
      using h by simp_all
    obtain s' ys' where f: "forEach bodies topic data (length ?xs) 0 s = Inl s'"
      and c: "calls s' = calls s @ map (\<lambda>c. (c, data)) (drop 0 (take (Suc i) ?xs))"
      using forEach_throws [OF a _ i q k t, of data] by auto
    have "calls ?s' = calls s @ map (\<lambda>c. (c, data)) (take (Suc i) ?xs)"
      using c by (simp add: onmessage_calls f outcome_def)
    then have "invoked bodies topic data s = take (Suc i) ?xs"
      by (rule invoked_eq)
    moreover have "console ?s' = console s @ [''Error parsing WebSocket message:'']"
      by (simp add: onmessage_console f)
    ultimately show ?thesis by simp
  qed
  show ?thesis
    using shape exact by blast
qed

theorem throwing_listener_aborts_pass_witness:
  "array_of (three_listeners late_failing_bodies) ''agent_status'' = [1, 2, 3] \<and>
   1 < length (array_of (three_listeners late_failing_bodies) ''agent_status'') \<and>
   list_all (\<lambda>c. quiet ''agent_status'' (late_failing_bodies c))
     (take 1 (array_of (three_listeners late_failing_bodies) ''agent_status'')) \<and>
   list_all (keeps ''agent_status'')
     (late_failing_bodies (array_of (three_listeners late_failing_bodies) ''agent_status'' ! 1)) \<and>
   Throw \<in> set (late_failing_bodies
     (array_of (three_listeners late_failing_bodies) ''agent_status'' ! 1)) \<and>
   invoked late_failing_bodies ''agent_status'' ''d'' (three_listeners late_failing_bodies) = [1, 2] \<and>
   console (onmessage late_failing_bodies (Typed ''agent_status'' ''d'')
      (three_listeners late_failing_bodies)) =
     [''WebSocket connected'', ''Error parsing WebSocket message:'']"
proof -
  have a: "array_of (three_listeners late_failing_bodies) ''agent_status'' = [1, 2, 3]"
    by (rule three_listeners_array)
  have h1: "1 < length (array_of (three_listeners late_failing_bodies) ''agent_status'')"
    by (simp add: a)
  have h2: "list_all (\<lambda>c. quiet ''agent_status'' (late_failing_bodies c))
      (take 1 (array_of (three_listeners late_failing_bodies) ''agent_status''))"
    by (simp add: a quiet_def late_failing_bodies_def)
  have h3: "list_all (keeps ''agent_status'')
      (late_failing_bodies (array_of (three_listeners late_failing_bodies) ''agent_status'' ! 1))"
    by (simp add: a late_failing_bodies_def)
  have h4: "Throw \<in> set (late_failing_bodies
      (array_of (three_listeners late_failing_bodies) ''agent_status'' ! 1))"
    by (simp add: a late_failing_bodies_def)
  have c: "console (three_listeners late_failing_bodies) = [''WebSocket connected'']"
    by (simp add: three_listeners_state)
  note main = throwing_listener_aborts_pass
    [of late_failing_bodies "''agent_status''" "''d''" "three_listeners late_failing_bodies" 1]
  have both: "invoked late_failing_bodies ''agent_status'' ''d'' (three_listeners late_failing_bodies) =
      take (Suc 1) (array_of (three_listeners late_failing_bodies) ''agent_status'') \<and>
      console (onmessage late_failing_bodies (Typed ''agent_status'' ''d'')
        (three_listeners late_failing_bodies)) =
      console (three_listeners late_failing_bodies) @ [''Error parsing WebSocket message:'']"
    using main h1 h2 h3 h4 by blast
  have i: "invoked late_failing_bodies ''agent_status'' ''d'' (three_listeners late_failing_bodies) = [1, 2]"
    using both by (simp add: a)
  have k: "console (onmessage late_failing_bodies (Typed ''agent_status'' ''d'')
      (three_listeners late_failing_bodies)) =
      [''WebSocket connected'', ''Error parsing WebSocket message:'']"
    using both by (simp add: c)
  show ?thesis
    using a h1 h2 h3 h4 i k by (simp only: simp_thms)
qed

text \<open>
  C1 as stated fails. After \<^verbatim>\<open>connect()\<close>, an open event and \<^verbatim>\<open>disconnect()\<close>,
  the close event of the closed socket schedules a reconnect, and when the timer fires a
  second socket is constructed, without any further call of \<^verbatim>\<open>connect()\<close>.
\<close>

theorem disconnect_reconnect_counterexample:
  "ws (run no_bodies [Call_connect, Sock_open 0, Call_disconnect] new_service) = None \<and>
   timers (run no_bodies [Call_connect, Sock_open 0, Call_disconnect, Sock_close 0] new_service) = [5000] \<and>
   ws (run no_bodies [Call_connect, Sock_open 0, Call_disconnect, Sock_close 0, Timer_fires] new_service) = Some 1 \<and>
   sockets (run no_bodies [Call_connect, Sock_open 0, Call_disconnect, Sock_close 0, Timer_fires] new_service) =
     [CLOSED, CONNECTING]"
  by (simp add: run_def step_def new_service_def connect_def onopen_def disconnect_def
      socket_close_def onclose_def)

text \<open>
  C1, amended: \<^verbatim>\<open>disconnect()\<close> closes the socket it holds and clears the handle, and
  cancels no timer. When the close event of that socket arrives afterwards, a reconnect
  is scheduled after 5000 ms, and when that timer fires a new socket is constructed and
  becomes the current one.
\<close>

theorem disconnect_does_not_stop_reconnect:
  assumes "ws s = Some sock" and "sock < length (sockets s)" and "sockets s ! sock \<noteq> CLOSED"
  shows "ws (disconnect s) = None \<and>
         sockets (disconnect s) = (sockets s)[sock := CLOSING] \<and>
         timers (disconnect s) = timers s \<and>
         timers (run bodies [Call_disconnect, Sock_close sock] s) = timers s @ [5000] \<and>
         (timers s = [] \<longrightarrow>
            ws (run bodies [Call_disconnect, Sock_close sock, Timer_fires] s) = Some (length (sockets s)) \<and>
            sockets (run bodies [Call_disconnect, Sock_close sock, Timer_fires] s) =
              (sockets s)[sock := CLOSED] @ [CONNECTING])"
proof -
  have closing: "socket_close (sockets s ! sock) = CLOSING"
    using assms(3) by (cases "sockets s ! sock") (simp_all add: socket_close_def)
  have d: "disconnect s = s\<lparr>sockets := (sockets s)[sock := CLOSING], ws := None\<rparr>"
    using assms(1,2) closing by (simp add: disconnect_def)
  have c: "step bodies (Sock_close sock) (disconnect s) =
      s\<lparr>sockets := (sockets s)[sock := CLOSED], ws := None,
        console := console s @ [''WebSocket disconnected''], timers := timers s @ [5000]\<rparr>"
    using assms(2) by (simp add: d step_def onclose_def)
  have t: "step bodies Timer_fires (step bodies (Sock_close sock) (disconnect s)) =
      s\<lparr>sockets := (sockets s)[sock := CLOSED] @ [CONNECTING], ws := Some (length (sockets s)),
        console := console s @ [''WebSocket disconnected''], timers := []\<rparr>"
    if "timers s = []"
    unfolding c using that by (simp add: step_def connect_def)
  have r2: "run bodies [Call_disconnect, Sock_close sock] s = step bodies (Sock_close sock) (disconnect s)"
    by (simp add: run_def step_def)
  have r3: "run bodies [Call_disconnect, Sock_close sock, Timer_fires] s =
      step bodies Timer_fires (step bodies (Sock_close sock) (disconnect s))"
    by (simp add: run_def step_def)
  have p1: "ws (disconnect s) = None \<and> sockets (disconnect s) = (sockets s)[sock := CLOSING] \<and>
      timers (disconnect s) = timers s"
    by (simp add: d)
  have p2: "timers (run bodies [Call_disconnect, Sock_close sock] s) = timers s @ [5000]"
    by (simp add: r2 c)
  have p3: "timers s = [] \<longrightarrow>
      ws (run bodies [Call_disconnect, Sock_close sock, Timer_fires] s) = Some (length (sockets s)) \<and>
      sockets (run bodies [Call_disconnect, Sock_close sock, Timer_fires] s) =
        (sockets s)[sock := CLOSED] @ [CONNECTING]"
    by (simp add: r3 t)
  show ?thesis
    using p1 p2 p3 by blast
qed

theorem disconnect_does_not_stop_reconnect_witness:
  "ws (run no_bodies [Call_connect, Sock_open 0] new_service) = Some 0 \<and>
   0 < length (sockets (run no_bodies [Call_connect, Sock_open 0] new_service)) \<and>
   sockets (run no_bodies [Call_connect, Sock_open 0] new_service) ! 0 \<noteq> CLOSED \<and>
   timers (run no_bodies [Call_connect, Sock_open 0] new_service) = [] \<and>
   ws (run no_bodies [Call_disconnect, Sock_close 0, Timer_fires]
         (run no_bodies [Call_connect, Sock_open 0] new_service)) = Some 1"
proof -
  have st: "run no_bodies [Call_connect, Sock_open 0] new_service =
      \<lparr>ws = Some 0, listeners = Map.empty, sockets = [OPEN], timers = [],
       console = [''WebSocket connected''], calls = []\<rparr>"
    by (simp add: run_def step_def new_service_def connect_def onopen_def)
  have h1: "ws (run no_bodies [Call_connect, Sock_open 0] new_service) = Some 0"
    and h2: "0 < length (sockets (run no_bodies [Call_connect, Sock_open 0] new_service))"
    and h3: "sockets (run no_bodies [Call_connect, Sock_open 0] new_service) ! 0 \<noteq> CLOSED"
    and h4: "timers (run no_bodies [Call_connect, Sock_open 0] new_service) = []"
    by (simp_all add: st)
  have l: "length (sockets (run no_bodies [Call_connect, Sock_open 0] new_service)) = 1"
    by (simp add: st)
  show ?thesis
    using disconnect_does_not_stop_reconnect [OF h1 h2 h3, of no_bodies] h1 h2 h3 h4
    by (simp add: l)
qed

text \<open>
  C8 as stated fails. \<^verbatim>\<open>connect()\<close> called on a service whose socket is connecting, or
  open, constructs a second socket and replaces the handle.
\<close>

theorem connect_twice_counterexample:
  "sockets (run no_bodies [Call_connect] new_service) = [CONNECTING] \<and>
   sockets (run no_bodies [Call_connect, Call_connect] new_service) = [CONNECTING, CONNECTING] \<and>
   ws (run no_bodies [Call_connect, Call_connect] new_service) = Some 1 \<and>
   sockets (run no_bodies [Call_connect, Sock_open 0] new_service) = [OPEN] \<and>
   sockets (run no_bodies [Call_connect, Sock_open 0, Call_connect] new_service) = [OPEN, CONNECTING] \<and>
   ws (run no_bodies [Call_connect, Sock_open 0, Call_connect] new_service) = Some 1"
  by (simp add: run_def step_def new_service_def connect_def onopen_def)

text \<open>
  C8, amended: \<^verbatim>\<open>connect()\<close> has no guard. In every state it constructs one more
  socket, in the connecting state, and makes it the current one; the sockets constructed
  before stay as they are (none is closed), and so do the registry and the timers.
\<close>

theorem connect_always_opens:
  "sockets (step bodies Call_connect s) = sockets s @ [CONNECTING] \<and>
   ws (step bodies Call_connect s) = Some (length (sockets s)) \<and>
   length (filter (\<lambda>st. st \<noteq> CLOSED) (sockets (step bodies Call_connect s))) =
     length (filter (\<lambda>st. st \<noteq> CLOSED) (sockets s)) + 1 \<and>
   listeners (step bodies Call_connect s) = listeners s \<and>
   timers (step bodies Call_connect s) = timers s"
  by (simp add: step_def connect_def)

end
